theory Spec2Isabelle
  imports Complex_Main "HOL-Library.Multiset"
begin

section \<open>Common conventions\<close>

text \<open>
  The development embeds parts of the LightGBM sources: the predictor's feature buffer
  (\<^verbatim>\<open>src/application/predictor.hpp\<close>), the metadata setters
  (\<^verbatim>\<open>src/io/metadata.cpp\<close>, \<^verbatim>\<open>src/io/dataset.cpp\<close>), the boosting controllers
  (\<^verbatim>\<open>gbdt.cpp\<close>, \<^verbatim>\<open>dart.cpp\<close>), the data partition and the LRU pool.

  A C++ \<^verbatim>\<open>double\<close> or \<^verbatim>\<open>float\<close> is modelled as a \<^typ>\<open>real\<close>: the theorems are about the
  arithmetic the code asks for, not about rounding. \<^verbatim>\<open>Log::Fatal\<close> and undefined behaviour
  (an access outside an array, a division by zero) are values of the type \<open>error\<close>.
\<close>

datatype error =
    OutOfBounds
  | CheckFailed
  | DivisionByZero
  | FatalQuerySum
  | FatalNoNumClass
  | FatalNoLabelIndex
  | FatalNoMaxFeatureIdx
  | FatalBoostingType
  | FatalNoObjective
  | FatalUnknownToken
  | IntOverflow
  | BadArrayLength

section \<open>Predictor: the per-thread feature buffer\<close>

text \<open>
  \<^verbatim>\<open>Predictor::PutFeatureValuesToBuffer\<close> (predictor.hpp, lines 200-211). The predictor
  owns one buffer of \<open>num_features_\<close> doubles per thread; \<open>tid\<close> is the value of
  \<^verbatim>\<open>omp_get_thread_num()\<close>. The pairs carry a C++ \<^verbatim>\<open>int\<close> index: the only test of the
  source is \<open>p.first < num_features_\<close>, so a negative index passes it and writes before
  the buffer, which is \<open>OutOfBounds\<close> here.
\<close>

record Predictor =
  num_features :: nat
  features_bufs :: "real list list"

fun put_values :: "nat \<Rightarrow> (int \<times> real) list \<Rightarrow> real list \<Rightarrow> error + real list" where
  "put_values nf [] buf = Inr buf"
| "put_values nf (p # ps) buf =
     (if fst p < int nf
      then (if fst p < 0 then Inl OutOfBounds
            else put_values nf ps (buf[nat (fst p) := snd p]))
      else put_values nf ps buf)"

definition PutFeatureValuesToBuffer ::
  "Predictor \<Rightarrow> nat \<Rightarrow> (int \<times> real) list \<Rightarrow> error + (nat \<times> Predictor)" where
  "PutFeatureValuesToBuffer pr tid features =
     (if tid < length (features_bufs pr)
      then (case put_values (num_features pr) features (replicate (num_features pr) 0) of
              Inl e \<Rightarrow> Inl e
            | Inr buf \<Rightarrow> Inr (tid, pr\<lparr>features_bufs := (features_bufs pr)[tid := buf]\<rparr>))
      else Inl OutOfBounds)"

text \<open>The value the last pair with index \<open>j\<close> carries, and 0 when the row has none.\<close>

definition row_value :: "(int \<times> real) list \<Rightarrow> nat \<Rightarrow> real" where
  "row_value features j =
     (case map_of (rev features) (int j) of None \<Rightarrow> 0 | Some v \<Rightarrow> v)"

section \<open>Metadata: query boundaries\<close>

text \<open>
  \<^verbatim>\<open>Metadata\<close> (metadata.cpp), with the fields the query setters touch.
  \<^verbatim>\<open>data_size_t\<close> is a 32-bit \<^verbatim>\<open>int\<close>; it is an \<^typ>\<open>int\<close> here, and the sums are the
  mathematical ones.
\<close>

record Metadata =
  num_data :: int
  num_queries :: int
  query_boundaries :: "int list"
  weights :: "real list"
  query_weights :: "real list"

text \<open>\<^verbatim>\<open>Common::Trim\<close>: strips the characters of \<^verbatim>\<open>" \f\n\r\t\v"\<close> at both ends.\<close>

definition is_space :: "char \<Rightarrow> bool" where
  "is_space c = (c = CHR '' '' \<or> c = CHR 0x0C \<or> c = CHR 0x0A \<or> c = CHR 0x0D
                 \<or> c = CHR 0x09 \<or> c = CHR 0x0B)"

definition Trim :: "string \<Rightarrow> string" where
  "Trim str = dropWhile is_space (rev (dropWhile is_space (rev str)))"

text \<open>
  \<^verbatim>\<open>Metadata::LoadQueryWeights\<close> (lines 458-472): the mean weight of each query, read
  through \<open>query_boundaries_[i]\<close> and \<open>query_boundaries_[i + 1]\<close> for \<open>i < num_queries_\<close>.
\<close>

definition query_weight :: "Metadata \<Rightarrow> nat \<Rightarrow> error + real" where
  "query_weight md i =
     (let qb = query_boundaries md in
      if Suc i < length qb
      then (let lo = qb ! i; hi = qb ! Suc i in
            if lo \<le> hi \<and> 0 \<le> lo \<and> nat hi \<le> length (weights md)
            then (if hi = lo then Inl DivisionByZero
                  else Inr (sum_list (map (\<lambda>j. weights md ! j) [nat lo..<nat hi])
                            / real_of_int (hi - lo)))
            else Inl OutOfBounds)
      else Inl OutOfBounds)"

fun collect :: "(error + 'a) list \<Rightarrow> error + 'a list" where
  "collect [] = Inr []"
| "collect (x # xs) =
     (case x of Inl e \<Rightarrow> Inl e
      | Inr v \<Rightarrow> (case collect xs of Inl e \<Rightarrow> Inl e | Inr vs \<Rightarrow> Inr (v # vs)))"

definition LoadQueryWeights :: "Metadata \<Rightarrow> error + Metadata" where
  "LoadQueryWeights md =
     (if weights md = [] \<or> query_boundaries md = [] then Inr md
      else (case collect (map (query_weight md) [0..<nat (num_queries md)]) of
              Inl e \<Rightarrow> Inl e
            | Inr qw \<Rightarrow> Inr (md\<lparr>query_weights := qw\<rparr>)))"

text \<open>
  \<^verbatim>\<open>Metadata::SetQueryBoundaries\<close> (lines 315-337). \<open>None\<close> is the null pointer; the length
  of the list is \<open>len\<close>. The values are stored as they come.
\<close>

definition SetQueryBoundaries :: "Metadata \<Rightarrow> int list option \<Rightarrow> error + Metadata" where
  "SetQueryBoundaries md arg =
     (case arg of
        None \<Rightarrow> Inr (md\<lparr>query_boundaries := [], num_queries := 0\<rparr>)
      | Some vals \<Rightarrow>
          if length vals = 0 then Inr (md\<lparr>query_boundaries := [], num_queries := 0\<rparr>)
          else if num_data md \<noteq> sum_list vals then Inl FatalQuerySum
          else LoadQueryWeights
                 (md\<lparr>num_queries := int (length vals), query_boundaries := vals\<rparr>))"

text \<open>\<^verbatim>\<open>Dataset::SetIntField\<close> (dataset.cpp, lines 82-91), on the dataset's metadata.\<close>

definition SetIntField ::
  "Metadata \<Rightarrow> string \<Rightarrow> int list option \<Rightarrow> error + (bool \<times> Metadata)" where
  "SetIntField md field_name field_data =
     (let name = Trim field_name in
      if name = ''query'' \<or> name = ''group''
      then (case SetQueryBoundaries md field_data of
              Inl e \<Rightarrow> Inl e | Inr md' \<Rightarrow> Inr (True, md'))
      else Inr (False, md))"

text \<open>
  \<^verbatim>\<open>Metadata::LoadQueryBoundaries\<close> (lines 437-456), the sibling path that reads the same
  per-query counts from the \<^verbatim>\<open>.query\<close> file: it stores the running sums, one entry more
  than there are counts, the first one 0. \<open>counts\<close> are the parsed lines.
\<close>

fun running_sums :: "int \<Rightarrow> int list \<Rightarrow> int list" where
  "running_sums acc [] = [acc]"
| "running_sums acc (c # cs) = acc # running_sums (acc + c) cs"

definition LoadQueryBoundaries :: "Metadata \<Rightarrow> int list \<Rightarrow> Metadata" where
  "LoadQueryBoundaries md counts =
     (if length counts = 0 then md\<lparr>num_queries := 0\<rparr>
      else md\<lparr>query_boundaries := running_sums 0 counts,
              num_queries := int (length counts)\<rparr>)"

text \<open>
  The invariant of the data model: \<open>num_queries + 1\<close> entries, the first 0, strictly
  increasing, the last \<open>num_data\<close>.
\<close>

definition query_boundaries_ok :: "Metadata \<Rightarrow> bool" where
  "query_boundaries_ok md =
     (let qb = query_boundaries md in
      int (length qb) = num_queries md + 1 \<and> hd qb = 0 \<and> last qb = num_data md
      \<and> sorted_wrt (<) qb)"

section \<open>Trees\<close>

text \<open>
  Modelled from the spec: the class \<^verbatim>\<open>Tree\<close> (tree.h, tree.cpp) is not among the sources.
  The spec describes it as internal nodes with a split feature and a real threshold and
  leaves with a value; \<open>predict(row)\<close> starts at the root, compares \<open>row[split_feature]\<close>
  with the threshold at each internal node and returns the value of the leaf reached;
  \<open>scale(rate)\<close> (\<^verbatim>\<open>Shrinkage\<close> in the callers) multiplies every leaf value by \<open>rate\<close>.
  A row is the buffer of feature values the callers pass as \<^verbatim>\<open>const double*\<close>.
\<close>

datatype tree = Leaf real | Node nat real tree tree

type_synonym row = "nat \<Rightarrow> real"

fun Tree_Predict :: "tree \<Rightarrow> row \<Rightarrow> real" where
  "Tree_Predict (Leaf v) x = v"
| "Tree_Predict (Node f th l r) x =
     (if x f \<le> th then Tree_Predict l x else Tree_Predict r x)"

fun Shrinkage :: "real \<Rightarrow> tree \<Rightarrow> tree" where
  "Shrinkage rate (Leaf v) = Leaf (v * rate)"
| "Shrinkage rate (Node f th l r) = Node f th (Shrinkage rate l) (Shrinkage rate r)"

fun num_leaves :: "tree \<Rightarrow> nat" where
  "num_leaves (Leaf v) = 1"
| "num_leaves (Node f th l r) = num_leaves l + num_leaves r"

section \<open>String helpers of \<^verbatim>\<open>Common\<close>\<close>

text \<open>
  \<^verbatim>\<open>Common::Split(const char*, char)\<close>: the pieces between the delimiters, one piece more
  than there are delimiters (a string that ends with the delimiter has an empty last
  piece). Strings are taken without NUL characters.
\<close>

fun Split :: "string \<Rightarrow> char \<Rightarrow> string list" where
  "Split [] d = [[]]"
| "Split (c # cs) d =
     (if c = d then [] # Split cs d
      else (case Split cs d of w # ws \<Rightarrow> (c # w) # ws | [] \<Rightarrow> [[c]]))"

text \<open>\<^verbatim>\<open>std::string::find(key) != npos\<close>: the key occurs somewhere in the string.\<close>

fun contains :: "string \<Rightarrow> string \<Rightarrow> bool" where
  "contains key [] = (key = [])"
| "contains key (c # cs) = (take (length key) (c # cs) = key \<or> contains key cs)"

definition is_digit :: "char \<Rightarrow> bool" where
  "is_digit c = (c \<in> set ''0123456789'')"

definition digit_val :: "char \<Rightarrow> nat" where
  "digit_val c = of_char c - 48"

fun read_digits :: "nat \<Rightarrow> string \<Rightarrow> nat" where
  "read_digits v [] = v"
| "read_digits v (c # cs) = (if is_digit c then read_digits (v * 10 + digit_val c) cs else v)"

definition skip_blanks :: "string \<Rightarrow> string" where
  "skip_blanks p = dropWhile (\<lambda>c. c = CHR '' '') p"

text \<open>The optional sign both parsers read: the factor and the rest of the text.\<close>

fun read_sign :: "string \<Rightarrow> int \<times> string" where
  "read_sign [] = (1, [])"
| "read_sign (c # cs) =
     (if c = CHR ''-'' then (- 1, cs) else if c = CHR ''+'' then (1, cs) else (1, c # cs))"

text \<open>\<^verbatim>\<open>Common::Atoi\<close> (the value it stores; a C++ \<^verbatim>\<open>int\<close> taken without overflow).\<close>

definition Atoi :: "string \<Rightarrow> int" where
  "Atoi p = (let (sign, q) = read_sign (skip_blanks p) in sign * int (read_digits 0 q))"

text \<open>
  \<^verbatim>\<open>Common::Atof\<close> (the value it stores). A text that starts like a number is read as
  digits, a fraction and an exponent clamped at 308; any other token must be one of
  \<open>na\<close>, \<open>nan\<close>, \<open>inf\<close>, \<open>infinity\<close> in any case, or the call is fatal.
\<close>

fun read_fraction :: "real \<Rightarrow> real \<Rightarrow> string \<Rightarrow> real" where
  "read_fraction v pow10 [] = v"
| "read_fraction v pow10 (c # cs) =
     (if is_digit c then read_fraction (v + real (digit_val c) / pow10) (pow10 * 10) cs else v)"

definition to_lower :: "char \<Rightarrow> char" where
  "to_lower c = (let n = (of_char c :: nat) in if 65 \<le> n \<and> n \<le> 90 then char_of (n + 32) else c)"

definition is_token_end :: "char \<Rightarrow> bool" where
  "is_token_end c = (c = CHR '' '' \<or> c = CHR 0x09 \<or> c = CHR '','' \<or> c = CHR 0x0A
                     \<or> c = CHR 0x0D \<or> c = CHR '':'')"

definition atof_number :: "real \<Rightarrow> string \<Rightarrow> real" where
  "atof_number sign p =
     (let whole = real (read_digits 0 p);
          p1 = dropWhile is_digit p;
          (val, p2) = (case p1 of
                         c # cs \<Rightarrow> if c = CHR ''.''
                                   then (read_fraction whole 10 cs, dropWhile is_digit cs)
                                   else (whole, p1)
                       | [] \<Rightarrow> (whole, p1));
          (frac, scale) = (case p2 of
                         c # cs \<Rightarrow> if c = CHR ''e'' \<or> c = CHR ''E''
                                   then (let (es, p3) = read_sign cs;
                                             expon = min (read_digits 0 p3) 308
                                         in (es = - 1, (10::real) ^ expon))
                                   else (False, 1)
                       | [] \<Rightarrow> (False, 1))
      in sign * (if frac then val / scale else val * scale))"

definition Atof :: "string \<Rightarrow> error + real" where
  "Atof p =
     (let (isign, q) = read_sign (skip_blanks p); sign = real_of_int isign in
      case q of
        [] \<Rightarrow> Inr 0
      | c # cs \<Rightarrow>
          if is_digit c \<or> c = CHR ''.'' \<or> c = CHR ''e'' \<or> c = CHR ''E''
          then Inr (atof_number sign q)
          else (let tok = map to_lower (takeWhile (\<lambda>c. \<not> is_token_end c) q) in
                if tok = [] then Inr 0
                else if tok = ''na'' \<or> tok = ''nan'' then Inr 0
                else if tok = ''inf'' \<or> tok = ''infinity'' then Inr (sign * 10 ^ 308)
                else Inl FatalUnknownToken))"

text \<open>\<^verbatim>\<open>Common::Join(strs, start, end, delimiter)\<close> on the lines from \<open>start\<close> to \<open>end\<close>.\<close>

fun Join :: "string list \<Rightarrow> char \<Rightarrow> string" where
  "Join [] d = []"
| "Join (s # ss) d = s @ concat (map (\<lambda>t. d # t) ss)"

section \<open>Loading a model\<close>

text \<open>
  The fields of \<^verbatim>\<open>GBDT\<close> that \<^verbatim>\<open>ModelsFromString\<close> sets and the prediction functions read.
\<close>

record GBDT_model =
  num_class :: int
  label_idx :: int
  max_feature_idx :: int
  sigmoid :: real
  models :: "tree list"
  num_used_model :: int

text \<open>
  One header loop of \<^verbatim>\<open>GBDT::ModelsFromString\<close> (gbdt.cpp, lines 427-437 and its three
  copies): \<open>i\<close> walks the lines; at the first line that contains the key the text after
  the first \<open>=\<close> is taken, \<open>i\<close> is incremented and the loop is left. The result is the
  final \<open>i\<close> and the text found.
\<close>

fun scan_key :: "string \<Rightarrow> string list \<Rightarrow> nat \<Rightarrow> nat \<times> string option" where
  "scan_key key [] i = (i, None)"
| "scan_key key (l # ls) i =
     (if contains key l then (Suc i, Some (Split l CHR ''='' ! 1))
      else scan_key key ls (Suc i))"

text \<open>
  The tree loop (lines 496-509): every line that contains \<open>Tree=\<close> opens a block made of
  the lines up to the next such line.
\<close>

function tree_blocks :: "string list \<Rightarrow> string list list" where
  "tree_blocks [] = []"
| "tree_blocks (l # ls) =
     (if contains ''Tree='' l
      then takeWhile (\<lambda>t. \<not> contains ''Tree='' t) ls
           # tree_blocks (dropWhile (\<lambda>t. \<not> contains ''Tree='' t) ls)
      else tree_blocks ls)"
  by pat_completeness auto
termination
  by (relation "measure length") (auto simp: length_dropWhile_le less_Suc_eq_le)

text \<open>C++ integer division truncates towards zero.\<close>

definition c_div :: "int \<Rightarrow> int \<Rightarrow> int" where
  "c_div a b = sgn a * sgn b * (\<bar>a\<bar> div \<bar>b\<bar>)"

text \<open>
  \<^verbatim>\<open>GBDT::ModelsFromString\<close> (lines 420-512). \<open>parse_tree\<close> stands for the constructor
  \<^verbatim>\<open>Tree(std::string)\<close>, which is not among the sources; \<open>m\<close> is the object before the call.
  After each of the first three loops \<open>i == lines.size()\<close> is fatal; after the fourth it
  sets \<open>sigmoid\<close> to \<open>-1\<close>.
\<close>

definition ModelsFromString ::
  "(string \<Rightarrow> error + tree) \<Rightarrow> GBDT_model \<Rightarrow> string \<Rightarrow> error + GBDT_model" where
  "ModelsFromString parse_tree m model_str =
     (let lines = Split model_str (CHR 0x0A);
          (i1, v1) = scan_key ''num_class='' lines 0 in
      if i1 = length lines then Inl FatalNoNumClass else
      let m1 = (case v1 of None \<Rightarrow> m | Some v \<Rightarrow> m\<lparr>num_class := Atoi v\<rparr>);
          (i2, v2) = scan_key ''label_index='' lines 0 in
      if i2 = length lines then Inl FatalNoLabelIndex else
      let m2 = (case v2 of None \<Rightarrow> m1 | Some v \<Rightarrow> m1\<lparr>label_idx := Atoi v\<rparr>);
          (i3, v3) = scan_key ''max_feature_idx='' lines 0 in
      if i3 = length lines then Inl FatalNoMaxFeatureIdx else
      let m3 = (case v3 of None \<Rightarrow> m2 | Some v \<Rightarrow> m2\<lparr>max_feature_idx := Atoi v\<rparr>);
          (i4, v4) = scan_key ''sigmoid='' lines 0 in
      case (case v4 of None \<Rightarrow> Inr (sigmoid m3) | Some v \<Rightarrow> Atof v) of
        Inl e \<Rightarrow> Inl e
      | Inr sg \<Rightarrow>
          let m4 = m3\<lparr>sigmoid := (if i4 = length lines then - 1 else sg)\<rparr> in
          case collect (map (\<lambda>b. parse_tree (Join b (CHR 0x0A))) (tree_blocks lines)) of
            Inl e \<Rightarrow> Inl e
          | Inr ts \<Rightarrow>
              if num_class m4 = 0 then Inl DivisionByZero
              else Inr (m4\<lparr>models := ts,
                           num_used_model := c_div (int (length ts)) (num_class m4)\<rparr>))"





section \<open>Prediction\<close>

text \<open>
  \<^verbatim>\<open>GBDT::PredictRaw\<close> and \<^verbatim>\<open>GBDT::Predict\<close> (gbdt.cpp, lines 541-559): the sum of the
  first \<open>num_used_model\<close> trees, and in \<open>Predict\<close> the sigmoid transform when
  \<open>sigmoid_ > 0\<close>.
\<close>

definition PredictRaw :: "GBDT_model \<Rightarrow> row \<Rightarrow> error + real" where
  "PredictRaw m x =
     (if nat (num_used_model m) \<le> length (models m)
      then Inr (foldl (\<lambda>ret t. ret + Tree_Predict t x) 0
                  (take (nat (num_used_model m)) (models m)))
      else Inl OutOfBounds)"

definition Predict :: "GBDT_model \<Rightarrow> row \<Rightarrow> error + real" where
  "Predict m x =
     (if nat (num_used_model m) \<le> length (models m)
      then (let ret = foldl (\<lambda>ret t. ret + Tree_Predict t x) 0
                        (take (nat (num_used_model m)) (models m))
            in Inr (if sigmoid m > 0 then 1 / (1 + exp (- 2 * sigmoid m * ret)) else ret))
      else Inl OutOfBounds)"


section \<open>The LRU pool\<close>

text \<open>
  Modelled from the spec: \<^verbatim>\<open>ArrayArgs<int>::ArgMin\<close> (array_args.h) is not among the sources.
  The spec has the pool evict the least recently used slot, the slot whose
  \<open>last_used_time\<close> is minimal; among equal times the first slot is taken.
\<close>

fun ArgMin :: "int list \<Rightarrow> nat" where
  "ArgMin [] = 0"
| "ArgMin [x] = 0"
| "ArgMin (x # y # ys) = (let r = ArgMin (y # ys) in if (y # ys) ! r < x then Suc r else 0)"

text \<open>
  \<^verbatim>\<open>LRUPool<T>\<close> (lru_pool.h). The arrays are lists; \<open>mapper\<close> holds a slot or \<open>-1\<close> for
  each index, \<open>inverse_mapper\<close> an index or \<open>-1\<close> for each slot. \<open>cur_time_\<close> is a C++
  \<^verbatim>\<open>int\<close>: incrementing it at \<open>INT_MAX\<close> is \<open>IntOverflow\<close>. An index is a \<^typ>\<open>nat\<close>,
  and an access outside an array is \<open>OutOfBounds\<close>.
\<close>

record 'a LRUPool =
  pool :: "'a list"
  cache_size :: int
  total_size :: int
  is_enough :: bool
  mapper :: "int list"
  inverse_mapper :: "int list"
  last_used_time :: "int list"
  cur_time :: int

definition INT_MAX :: int where "INT_MAX = 2147483647"

text \<open>\<^verbatim>\<open>ResetMap\<close> (lines 389-396) and \<^verbatim>\<open>ResetSize\<close> (lines 365-383). The macro \<^verbatim>\<open>CHECK\<close>
  is not among the sources; a failed check is the fatal \<open>CheckFailed\<close>. \<open>fresh\<close> is a
  default-constructed \<open>T\<close>.\<close>

definition ResetMap :: "'a LRUPool \<Rightarrow> 'a LRUPool" where
  "ResetMap p =
     (if \<not> is_enough p
      then p\<lparr>cur_time := 0,
             mapper := replicate (nat (total_size p)) (- 1),
             inverse_mapper := replicate (nat (cache_size p)) (- 1),
             last_used_time := replicate (nat (cache_size p)) 0\<rparr>
      else p)"

definition ResetSize :: "'a \<Rightarrow> 'a LRUPool \<Rightarrow> int \<Rightarrow> int \<Rightarrow> error + 'a LRUPool" where
  "ResetSize fresh p cache_sz total_sz =
     (if \<not> cache_sz \<ge> 2 then Inl CheckFailed
      else (let cs = (if cache_sz > total_sz then total_sz else cache_sz);
                enough = (cs = total_sz) in
            if cs < 0 then Inl BadArrayLength
            else Inr (ResetMap (p\<lparr>cache_size := cs, total_size := total_sz, is_enough := enough,
                           pool := replicate (nat cs) fresh,
                           mapper := [], inverse_mapper := [], last_used_time := []\<rparr>))))"

text \<open>\<^verbatim>\<open>Get\<close> (lines 414-438): the flag returned, the object written to \<open>out\<close>, and the
  pool afterwards.\<close>

definition Get :: "'a LRUPool \<Rightarrow> nat \<Rightarrow> error + (bool \<times> 'a \<times> 'a LRUPool)" where
  "Get p idx =
     (if is_enough p
      then (if idx < length (pool p) then Inr (True, pool p ! idx, p) else Inl OutOfBounds)
      else if \<not> idx < length (mapper p) then Inl OutOfBounds
      else if mapper p ! idx \<ge> 0
      then (let slot = nat (mapper p ! idx) in
            if \<not> (slot < length (pool p) \<and> slot < length (last_used_time p))
            then Inl OutOfBounds
            else if cur_time p = INT_MAX then Inl IntOverflow
            else Inr (True, pool p ! slot,
                      p\<lparr>cur_time := cur_time p + 1,
                        last_used_time := (last_used_time p)[slot := cur_time p + 1]\<rparr>))
      else (if \<not> (0 < cache_size p \<and> nat (cache_size p) \<le> length (last_used_time p))
            then Inl OutOfBounds
            else
            let slot = ArgMin (take (nat (cache_size p)) (last_used_time p)) in
            if \<not> (slot < length (pool p) \<and> slot < length (inverse_mapper p))
            then Inl OutOfBounds
            else if cur_time p = INT_MAX then Inl IntOverflow
            else
            let prev = inverse_mapper p ! slot in
            if prev \<ge> 0 \<and> \<not> nat prev < length (mapper p) then Inl OutOfBounds
            else
            let mapper1 = (if prev \<ge> 0 then (mapper p)[nat prev := - 1] else mapper p) in
            Inr (False, pool p ! slot,
                 p\<lparr>cur_time := cur_time p + 1,
                   last_used_time := (last_used_time p)[slot := cur_time p + 1],
                   mapper := mapper1[idx := int slot],
                   inverse_mapper := (inverse_mapper p)[slot := int idx]\<rparr>)))"

text \<open>
  The state \<open>ResetSize\<close> establishes and \<open>Get\<close> keeps: the arrays have their allocated
  lengths, the stored slots and indices are in range, and no time stamp exceeds the
  counter.
\<close>

definition pool_ok :: "'a LRUPool \<Rightarrow> bool" where
  "pool_ok p =
     (if is_enough p then length (pool p) = nat (total_size p)
      else 2 \<le> cache_size p \<and> cache_size p < total_size p
         \<and> length (pool p) = nat (cache_size p)
         \<and> length (mapper p) = nat (total_size p)
         \<and> length (inverse_mapper p) = nat (cache_size p)
         \<and> length (last_used_time p) = nat (cache_size p)
         \<and> list_all (\<lambda>s. s < cache_size p) (mapper p)
         \<and> list_all (\<lambda>i. i < total_size p) (inverse_mapper p)
         \<and> list_all (\<lambda>t. t \<le> cur_time p) (last_used_time p))"

section \<open>The boosting controller\<close>

text \<open>
  Modelled from the spec: the class \<^verbatim>\<open>ScoreUpdater\<close> (score_updater.hpp) and the tree
  learners are not among the sources. The spec has the score updater accumulate additive
  scores on a dataset: \<open>scores += tree.predict(data)\<close>, on the block of the current class
  (the score vector holds \<open>num_data\<close> entries per class). For the training scores the
  learner's fast path on the bagged rows and the pass over the out-of-bag rows together
  reach every row, "so the next iteration sees a complete score vector"; both are the
  one \<open>AddScore\<close> here.
\<close>

record ScoreUpdater =
  data :: "row list"
  score :: "real list"


text \<open>
  A metric of \<^verbatim>\<open>valid_metrics_\<close>: \<open>Eval_back score\<close> is the last entry of the vector
  \<^verbatim>\<open>Eval(score)\<close> returns, \<open>is_bigger_better\<close> its direction.
\<close>

record Metric =
  Eval_back :: "real list \<Rightarrow> real"
  is_bigger_better :: bool

text \<open>
  The training state of \<^verbatim>\<open>GBDT\<close> (gbdt.cpp), on top of the fields of the loaded model.
  \<open>has_objective\<close> is \<open>object_function_ != nullptr\<close>. Logging is not modelled, and with it
  \<open>output_freq\<close>, which decides nothing but what is logged: the validation block of
  \<open>OutputMetric\<close> changes state only when \<open>early_stopping_round_ > 0\<close>, and then it runs
  at every call.
\<close>

record GBDT = GBDT_model +
  iter :: int
  early_stopping_round :: int
  learning_rate :: real
  has_objective :: bool
  train_score_updater :: ScoreUpdater
  valid_score_updater :: "ScoreUpdater list"
  valid_metrics :: "Metric list list"
  best_iter :: "int list list"
  best_score :: "real list list"

text \<open>
  \<^verbatim>\<open>GBDT::AddDataset\<close> (lines 161-173): a validation set starts with best iteration 0 and
  best score \<open>-1\<close> for each of its metrics.
\<close>

definition AddDataset :: "ScoreUpdater \<Rightarrow> Metric list \<Rightarrow> 'a GBDT_scheme \<Rightarrow> 'a GBDT_scheme" where
  "AddDataset valid_updater metrics g =
     g\<lparr>valid_score_updater := valid_score_updater g @ [valid_updater],
       valid_metrics := valid_metrics g @ [metrics],
       best_iter := best_iter g @ [map (\<lambda>m. 0) metrics],
       best_score := best_score g @ [map (\<lambda>m. - 1) metrics]\<rparr>"














section \<open>DART\<close>
















section \<open>Bagging\<close>

text \<open>
  The members of \<^verbatim>\<open>GBDT\<close> that \<^verbatim>\<open>Bagging\<close> reads and writes: the metadata of the training
  data, the two settings of the configuration, the two index buffers and their counts.
  \<open>has_bag_buffers\<close> is \<open>out_of_bag_data_indices_ != nullptr\<close>.
\<close>

record Bagger =
  train_metadata :: Metadata
  bagging_fraction :: real
  bagging_freq :: int
  has_bag_buffers :: bool
  bag_data_indices :: "int list"
  out_of_bag_data_indices :: "int list"
  bag_data_cnt :: int
  out_of_bag_data_cnt :: int

text \<open>
  \<open>static_cast<data_size_t>\<close> of a double: truncation towards zero.
\<close>

definition c_trunc :: "real \<Rightarrow> int" where
  "c_trunc x = (if x \<ge> 0 then \<lfloor>x\<rfloor> else \<lceil>x\<rceil>)"

text \<open>
  \<^verbatim>\<open>GBDT::Init\<close>, lines 146-155: the buffers are allocated, \<open>num_data_\<close> entries each, when
  \<open>bagging_fraction < 1\<close> and \<open>bagging_freq > 0\<close>; otherwise both pointers are null and the
  bag counts every row.
\<close>

definition Init_bagging :: "Metadata \<Rightarrow> real \<Rightarrow> int \<Rightarrow> Bagger \<Rightarrow> Bagger" where
  "Init_bagging md fraction freq b =
     (if fraction < 1 \<and> freq > 0
      then b\<lparr>train_metadata := md, bagging_fraction := fraction, bagging_freq := freq,
             has_bag_buffers := True,
             out_of_bag_data_indices := replicate (nat (num_data md)) 0,
             bag_data_indices := replicate (nat (num_data md)) 0\<rparr>
      else b\<lparr>train_metadata := md, bagging_fraction := fraction, bagging_freq := freq,
             has_bag_buffers := False,
             out_of_bag_data_cnt := 0, out_of_bag_data_indices := [],
             bag_data_cnt := num_data md, bag_data_indices := []\<rparr>)"

text \<open>
  The loop of the branch without queries (lines 186-194): the unit is one row. \<open>draw i\<close> is
  the value \<^verbatim>\<open>random_.NextDouble()\<close> returns at the step \<open>i\<close> (the class \<^verbatim>\<open>Random\<close> is not
  among the sources); \<open>cur_left_cnt\<close> and \<open>cur_right_cnt\<close> are the lengths of what has been
  written to the two buffers.
\<close>

fun bag_rows ::
  "(nat \<Rightarrow> real) \<Rightarrow> int \<Rightarrow> int \<Rightarrow> nat list \<Rightarrow> int list \<Rightarrow> int list \<Rightarrow> int list \<times> int list" where
  "bag_rows draw n bag_cnt [] bag oob = (bag, oob)"
| "bag_rows draw n bag_cnt (i # rest) bag oob =
     (let prob = real_of_int (bag_cnt - int (length bag)) / real_of_int (n - int i) in
      if draw i < prob then bag_rows draw n bag_cnt rest (bag @ [int i]) oob
      else bag_rows draw n bag_cnt rest bag (oob @ [int i]))"

text \<open>
  The rows of the query \<open>i\<close>: the inner loops of lines 208 and 213 run \<open>j\<close> from
  \<open>query_boundaries[i]\<close> up to, and not including, \<open>query_boundaries[i + 1]\<close>.
\<close>

definition query_rows :: "int list \<Rightarrow> nat \<Rightarrow> int list" where
  "query_rows qb i = [qb ! i .. qb ! (i + 1) - 1]"

text \<open>
  The loop of the branch with queries (lines 205-217): the unit is one query. Reading
  \<open>query_boundaries[i + 1]\<close> past the end of the array is \<open>OutOfBounds\<close>.
\<close>

fun bag_queries ::
  "(nat \<Rightarrow> real) \<Rightarrow> int list \<Rightarrow> int \<Rightarrow> int \<Rightarrow> nat list \<Rightarrow> int \<Rightarrow> int list \<Rightarrow> int list
   \<Rightarrow> error + int list \<times> int list" where
  "bag_queries draw qb nq bag_query_cnt [] cur_left_query_cnt bag oob = Inr (bag, oob)"
| "bag_queries draw qb nq bag_query_cnt (i # rest) cur_left_query_cnt bag oob =
     (if \<not> i + 1 < length qb then Inl OutOfBounds
      else (let prob = real_of_int (bag_query_cnt - cur_left_query_cnt)
                        / real_of_int (nq - int i) in
            if draw i < prob
            then bag_queries draw qb nq bag_query_cnt rest (cur_left_query_cnt + 1)
                   (bag @ query_rows qb i) oob
            else bag_queries draw qb nq bag_query_cnt rest cur_left_query_cnt
                   bag (oob @ query_rows qb i)))"

text \<open>
  The writes \<open>buffer[cnt++] = j\<close> of a loop, together: the values written fill the front of
  the buffer; writing more than the buffer holds is \<open>OutOfBounds\<close>.
\<close>

definition write_prefix :: "int list \<Rightarrow> int list \<Rightarrow> error + int list" where
  "write_prefix written buffer =
     (if length written \<le> length buffer then Inr (written @ drop (length written) buffer)
      else Inl OutOfBounds)"

text \<open>
  \<^verbatim>\<open>GBDT::Bagging\<close> (lines 176-227). In the branch without queries \<open>bag_data_cnt_\<close> is the
  truncated product, in the branch with queries it is the number of rows written to the
  bag. The call \<^verbatim>\<open>SetBaggingData\<close> hands the buffer and the count to the tree learner,
  which is not among the sources, and changes nothing here.
\<close>

definition Bagging :: "(nat \<Rightarrow> real) \<Rightarrow> int \<Rightarrow> Bagger \<Rightarrow> error + Bagger" where
  "Bagging draw it b =
     (if has_bag_buffers b \<and> it mod bagging_freq b = 0
      then (let md = train_metadata b; n = num_data md in
            case (if query_boundaries md = []
                  then Inr (bag_rows draw n (c_trunc (bagging_fraction b * real_of_int n))
                              [0..<nat n] [] [])
                  else bag_queries draw (query_boundaries md) (num_queries md)
                         (c_trunc (real_of_int (num_queries md) * bagging_fraction b))
                         [0..<nat (num_queries md)] 0 [] []) of
              Inl e \<Rightarrow> Inl e
            | Inr (bag, oob) \<Rightarrow>
                (case (write_prefix bag (bag_data_indices b),
                       write_prefix oob (out_of_bag_data_indices b)) of
                   (Inr bag_buf, Inr oob_buf) \<Rightarrow>
                     (let cnt = (if query_boundaries md = []
                                 then c_trunc (bagging_fraction b * real_of_int n)
                                 else int (length bag))
                      in Inr (b\<lparr>bag_data_indices := bag_buf,
                                out_of_bag_data_indices := oob_buf,
                                bag_data_cnt := cnt,
                                out_of_bag_data_cnt := n - cnt\<rparr>))
                 | _ \<Rightarrow> Inl OutOfBounds))
      else Inr b)"

text \<open>
  The state \<open>Init\<close> leaves when it allocates the buffers, and every \<open>Bagging\<close> keeps.
\<close>

definition bag_buffers_ok :: "Bagger \<Rightarrow> bool" where
  "bag_buffers_ok b =
     (has_bag_buffers b \<and> bagging_fraction b < 1 \<and> 0 < bagging_freq b
      \<and> length (bag_data_indices b) = nat (num_data (train_metadata b))
      \<and> length (out_of_bag_data_indices b) = nat (num_data (train_metadata b)))"

text \<open>
  The bagged row indices and the out-of-bag row indices: the first \<open>bag_data_cnt_\<close> entries
  of the one buffer and the first \<open>out_of_bag_data_cnt_\<close> entries of the other.
\<close>

definition bag_indices :: "Bagger \<Rightarrow> int list" where
  "bag_indices b = take (nat (bag_data_cnt b)) (bag_data_indices b)"

definition out_of_bag_indices :: "Bagger \<Rightarrow> int list" where
  "out_of_bag_indices b = take (nat (out_of_bag_data_cnt b)) (out_of_bag_data_indices b)"

section \<open>The data partition of the tree learner\<close>

text \<open>
  The class \<^verbatim>\<open>Bin\<close> is not among the sources; \<^verbatim>\<open>DataPartition::Split\<close> calls its method
  \<^verbatim>\<open>Split(threshold, data_indices, num_data, lte_indices, gt_indices)\<close>, which writes the
  rows that go left and the rows that go right to the two output arrays and returns the
  number of rows that go left. A feature's bin data is taken as a parameter: the function
  from the threshold and the rows to the two lists.
\<close>

type_synonym Bin = "nat \<Rightarrow> nat list \<Rightarrow> nat list \<times> nat list"

text \<open>
  What \<^verbatim>\<open>DataPartition::Split\<close> relies on: every row handed to \<^verbatim>\<open>Bin::Split\<close> comes back
  once, left or right.
\<close>

definition Bin_Split_ok :: "Bin \<Rightarrow> bool" where
  "Bin_Split_ok feature_bins =
     (\<forall>threshold rows. mset (fst (feature_bins threshold rows))
                         + mset (snd (feature_bins threshold rows)) = mset rows)"

text \<open>
  \<^verbatim>\<open>DataPartition\<close> (data_partition.hpp). Row ids, counts and leaf numbers are natural
  numbers; the 32-bit range of \<^verbatim>\<open>data_size_t\<close> is not modelled. \<open>used_data_indices\<close> is
  \<open>None\<close> for the null pointer. The temporary buffers are part of \<open>Split\<close> below.
  \<open>dp_num_data\<close> and \<open>dp_num_leaves\<close> are \<^verbatim>\<open>num_data_\<close> and \<^verbatim>\<open>num_leaves_\<close>.
\<close>

record DataPartition =
  dp_num_data :: nat
  dp_num_leaves :: nat
  leaf_begin :: "nat list"
  leaf_count :: "nat list"
  indices :: "nat list"
  used_data_indices :: "nat list option"
  used_data_count :: nat
  num_threads :: nat

text \<open>
  The constructor; \<open>threads\<close> is what \<^verbatim>\<open>omp_get_num_threads()\<close> returns.
\<close>

definition DataPartition_new :: "nat \<Rightarrow> nat \<Rightarrow> nat \<Rightarrow> DataPartition" where
  "DataPartition_new n num_leafs threads =
     \<lparr>dp_num_data = n, dp_num_leaves = num_leafs,
      leaf_begin = replicate num_leafs 0, leaf_count = replicate num_leafs 0,
      indices = replicate n 0, used_data_indices = None, used_data_count = 0,
      num_threads = threads\<rparr>"

text \<open>
  \<^verbatim>\<open>SetUsedDataIndices\<close>: the rows of the bag.
\<close>

definition SetUsedDataIndices :: "nat list \<Rightarrow> nat \<Rightarrow> DataPartition \<Rightarrow> DataPartition" where
  "SetUsedDataIndices used num_used_data dp =
     dp\<lparr>used_data_indices := Some used, used_data_count := num_used_data\<rparr>"

text \<open>
  \<^verbatim>\<open>DataPartition::Init\<close> (lines 624-641): every leaf count is cleared and all rows are put
  on leaf 0, the rows \<open>0, ..., num_data - 1\<close> or the first \<open>used_data_count\<close> rows of the
  bag. An access outside a vector is \<open>OutOfBounds\<close>.
\<close>

definition DataPartition_Init :: "DataPartition \<Rightarrow> error + DataPartition" where
  "DataPartition_Init dp =
     (if length (leaf_count dp) < dp_num_leaves dp \<or> leaf_begin dp = [] \<or> leaf_count dp = []
      then Inl OutOfBounds
      else (let cleared = replicate (dp_num_leaves dp) 0 @ drop (dp_num_leaves dp) (leaf_count dp);
                begins = (leaf_begin dp)[0 := 0]
            in case used_data_indices dp of
                 None \<Rightarrow>
                   if length (indices dp) < dp_num_data dp then Inl OutOfBounds
                   else Inr (dp\<lparr>leaf_count := cleared[0 := dp_num_data dp],
                                leaf_begin := begins,
                                indices := [0..<dp_num_data dp]
                                           @ drop (dp_num_data dp) (indices dp)\<rparr>)
               | Some used \<Rightarrow>
                   if length (indices dp) < used_data_count dp
                      \<or> length used < used_data_count dp
                   then Inl OutOfBounds
                   else Inr (dp\<lparr>leaf_count := cleared[0 := used_data_count dp],
                                leaf_begin := begins,
                                indices := take (used_data_count dp) used
                                           @ drop (used_data_count dp) (indices dp)\<rparr>)))"

text \<open>
  \<^verbatim>\<open>GetIndexOnLeaf\<close>: the rows of a leaf are the \<open>leaf_count\<close> entries of \<open>indices\<close> from
  \<open>leaf_begin\<close> on.
\<close>

definition GetIndexOnLeaf :: "DataPartition \<Rightarrow> nat \<Rightarrow> nat list" where
  "GetIndexOnLeaf dp leaf = take (leaf_count dp ! leaf) (drop (leaf_begin dp ! leaf) (indices dp))"

text \<open>
  The rows thread \<open>i\<close> splits in the first parallel loop of \<open>Split\<close> (lines 673-687):
  \<open>cur_cnt\<close> entries of \<open>indices\<close> from \<open>begin + cur_start\<close> on, and nothing (\<open>continue\<close>) when
  \<open>cur_start > cnt\<close>.
\<close>

definition thread_rows :: "nat \<Rightarrow> nat \<Rightarrow> nat \<Rightarrow> nat list \<Rightarrow> nat \<Rightarrow> nat list option" where
  "thread_rows begin cnt inner_size ind i =
     (let cur_start = i * inner_size in
      if cur_start > cnt then None
      else (let cur_cnt = (if cur_start + inner_size > cnt then cnt - cur_start else inner_size)
            in Some (take cur_cnt (drop (begin + cur_start) ind))))"

text \<open>
  What thread \<open>i\<close> leaves behind: the rows \<^verbatim>\<open>Bin::Split\<close> wrote to \<^verbatim>\<open>temp_left_indices_\<close>
  and to \<^verbatim>\<open>temp_right_indices_\<close> from \<open>cur_start\<close> on; their lengths are \<open>left_cnts_buf_[i]\<close>
  and \<open>right_cnts_buf_[i]\<close> (the latter is \<open>cur_cnt - cur_left_count\<close> in the source, the
  number of rows that went right). The threads work on disjoint ranges of the temporary
  buffers, so each thread's result is kept as a pair of lists; the second loop reads them
  back from \<open>offsets_buf_[i] = cur_start\<close>. A thread that skips has both counts 0.
\<close>

definition thread_split ::
  "Bin \<Rightarrow> nat \<Rightarrow> nat \<Rightarrow> nat \<Rightarrow> nat \<Rightarrow> nat list \<Rightarrow> nat \<Rightarrow> nat list \<times> nat list" where
  "thread_split feature_bins threshold begin cnt inner_size ind i =
     (case thread_rows begin cnt inner_size ind i of
        None \<Rightarrow> ([], [])
      | Some rows \<Rightarrow> feature_bins threshold rows)"

text \<open>
  The serial scan of lines 687-694: \<open>write_pos[0] = pos\<close> and
  \<open>write_pos[i] = write_pos[i - 1] + cnts[i - 1]\<close>.
\<close>

fun write_positions :: "nat \<Rightarrow> nat list \<Rightarrow> nat list" where
  "write_positions pos [] = []"
| "write_positions pos (c # cs) = pos # write_positions (pos + c) cs"

text \<open>
  \<^verbatim>\<open>std::memcpy\<close> of the values \<open>xs\<close> into an array from position \<open>pos\<close> on; writing past the
  end of the array is \<open>OutOfBounds\<close>.
\<close>

definition memcpy_at :: "nat \<Rightarrow> nat list \<Rightarrow> nat list \<Rightarrow> error + nat list" where
  "memcpy_at pos xs arr =
     (if pos + length xs \<le> length arr
      then Inr (take pos arr @ xs @ drop (pos + length xs) arr)
      else Inl OutOfBounds)"

text \<open>
  The second parallel loop (lines 697-706), thread after thread: the left rows of thread
  \<open>i\<close> go to \<open>begin + left_write_pos_buf_[i]\<close>, its right rows to
  \<open>begin + left_cnt + right_write_pos_buf_[i]\<close>, each only when there is at least one.
\<close>

fun copy_back ::
  "nat \<Rightarrow> nat \<Rightarrow> ((nat list \<times> nat list) \<times> nat \<times> nat) list \<Rightarrow> nat list \<Rightarrow> error + nat list" where
  "copy_back begin left_cnt [] ind = Inr ind"
| "copy_back begin left_cnt (((l, r), lpos, rpos) # rest) ind =
     (case (if 0 < length l then memcpy_at (begin + lpos) l ind else Inr ind) of
        Inl e \<Rightarrow> Inl e
      | Inr ind1 \<Rightarrow>
          (case (if 0 < length r then memcpy_at (begin + left_cnt + rpos) r ind1 else Inr ind1) of
             Inl e \<Rightarrow> Inl e
           | Inr ind2 \<Rightarrow> copy_back begin left_cnt rest ind2))"

text \<open>
  \<^verbatim>\<open>DataPartition::Split\<close> (lines 663-711). With no thread the division of line 669 is a
  division by zero. \<open>leaf_count_[leaf]\<close> is written before \<open>leaf_count_[right_leaf]\<close>.
\<close>

definition DataPartition_Split ::
  "nat \<Rightarrow> Bin \<Rightarrow> nat \<Rightarrow> nat \<Rightarrow> DataPartition \<Rightarrow> error + DataPartition" where
  "DataPartition_Split leaf feature_bins threshold right_leaf dp =
     (if \<not> (leaf < length (leaf_begin dp) \<and> leaf < length (leaf_count dp)) then Inl OutOfBounds
      else if num_threads dp = 0 then Inl DivisionByZero
      else (let begin = leaf_begin dp ! leaf;
                cnt = leaf_count dp ! leaf;
                inner_size = max 1000 ((cnt + num_threads dp - 1) div num_threads dp)
            in if 0 < cnt \<and> length (indices dp) < begin + cnt then Inl OutOfBounds
               else (let parts = map (thread_split feature_bins threshold begin cnt inner_size
                                        (indices dp)) [0..<num_threads dp];
                         left_cnts = map (\<lambda>p. length (fst p)) parts;
                         right_cnts = map (\<lambda>p. length (snd p)) parts;
                         left_write_pos = write_positions 0 left_cnts;
                         right_write_pos = write_positions 0 right_cnts;
                         left_cnt = last left_write_pos + last left_cnts
                     in case copy_back begin left_cnt
                               (zip parts (zip left_write_pos right_write_pos)) (indices dp) of
                          Inl e \<Rightarrow> Inl e
                        | Inr ind \<Rightarrow>
                            if \<not> (right_leaf < length (leaf_begin dp)
                                   \<and> right_leaf < length (leaf_count dp))
                            then Inl OutOfBounds
                            else Inr (dp\<lparr>indices := ind,
                                         leaf_count := (leaf_count dp)
                                            [leaf := left_cnt, right_leaf := cnt - left_cnt],
                                         leaf_begin := (leaf_begin dp)
                                            [right_leaf := left_cnt + begin]\<rparr>))))"

text \<open>
  A sequence of calls of \<open>Split\<close>, each with its leaf, the feature's bin data, the
  threshold and the right leaf.
\<close>

fun Splits :: "(nat \<times> Bin \<times> nat \<times> nat) list \<Rightarrow> DataPartition \<Rightarrow> error + DataPartition" where
  "Splits [] dp = Inr dp"
| "Splits ((leaf, feature_bins, threshold, right_leaf) # rest) dp =
     (case DataPartition_Split leaf feature_bins threshold right_leaf dp of
        Inl e \<Rightarrow> Inl e
      | Inr dp' \<Rightarrow> Splits rest dp')"

text \<open>
  The position \<open>p\<close> of \<open>indices\<close> lies in the range of the leaf \<open>i\<close>.
\<close>

definition in_leaf :: "DataPartition \<Rightarrow> nat \<Rightarrow> nat \<Rightarrow> bool" where
  "in_leaf dp i p = (leaf_begin dp ! i \<le> p \<and> p < leaf_begin dp ! i + leaf_count dp ! i)"

text \<open>
  The invariant of a partition of \<open>N\<close> rows \<open>rows0\<close>: the vectors have their sizes, the leaf
  counts sum to \<open>N\<close>, the first \<open>N\<close> entries of \<open>indices\<close> are a permutation of \<open>rows0\<close>, the
  range of every leaf that has rows ends at or before \<open>N\<close>, and every position below \<open>N\<close>
  lies in the range of exactly one leaf.
\<close>

definition partition_ok :: "nat \<Rightarrow> nat list \<Rightarrow> DataPartition \<Rightarrow> bool" where
  "partition_ok N rows0 dp =
     (0 < num_threads dp
      \<and> length (leaf_begin dp) = dp_num_leaves dp
      \<and> length (leaf_count dp) = dp_num_leaves dp
      \<and> N \<le> length (indices dp)
      \<and> sum_list (leaf_count dp) = N
      \<and> mset (take N (indices dp)) = mset rows0
      \<and> (\<forall>i < dp_num_leaves dp. 0 < leaf_count dp ! i
             \<longrightarrow> leaf_begin dp ! i + leaf_count dp ! i \<le> N)
      \<and> (\<forall>p < N. \<exists>!i. i < dp_num_leaves dp \<and> in_leaf dp i p))"

text \<open>
  What one \<open>Split\<close> does to the leaves: the left child keeps the begin of the parent, the
  right child begins where the left child ends, the two counts add up to the count of the
  parent, the rows of the two children together are the rows of the parent, and the begin
  and the count of every other leaf stay.
\<close>

definition split_children :: "DataPartition \<Rightarrow> nat \<Rightarrow> nat \<Rightarrow> DataPartition \<Rightarrow> bool" where
  "split_children dp leaf right_leaf dp' =
     (leaf_begin dp' ! leaf = leaf_begin dp ! leaf
      \<and> leaf_begin dp' ! right_leaf = leaf_begin dp ! leaf + leaf_count dp' ! leaf
      \<and> leaf_count dp' ! leaf + leaf_count dp' ! right_leaf = leaf_count dp ! leaf
      \<and> mset (GetIndexOnLeaf dp' leaf) + mset (GetIndexOnLeaf dp' right_leaf)
          = mset (GetIndexOnLeaf dp leaf)
      \<and> (\<forall>j < dp_num_leaves dp. j \<noteq> leaf \<and> j \<noteq> right_leaf
             \<longrightarrow> leaf_begin dp' ! j = leaf_begin dp ! j
                 \<and> leaf_count dp' ! j = leaf_count dp ! j))"

text \<open>
  Modelled from the spec: \<^verbatim>\<open>Bin::Split\<close> is not among the sources; the spec has "a row goes
  left iff \<open>bin \<le> threshold_bin\<close>". \<open>bins r\<close> is the bin of the row \<open>r\<close>. The theorems below
  hold for every \<open>Bin\<close> with \<open>Bin_Split_ok\<close>; this one is an example of it.
\<close>

definition Bin_Split :: "(nat \<Rightarrow> nat) \<Rightarrow> Bin" where
  "Bin_Split bins threshold rows =
     (filter (\<lambda>r. bins r \<le> threshold) rows, filter (\<lambda>r. \<not> bins r \<le> threshold) rows)"

text \<open>
  The state the constructor leaves, with or without \<open>SetUsedDataIndices\<close>, as far as
  \<open>Init\<close> and \<open>Split\<close> need it: the vectors have their sizes, there is a leaf and a
  thread, and the rows of the bag, when there is one, fit and are distinct.
\<close>

definition allocated :: "DataPartition \<Rightarrow> bool" where
  "allocated dp =
     (0 < num_threads dp \<and> 0 < dp_num_leaves dp
      \<and> length (leaf_begin dp) = dp_num_leaves dp
      \<and> length (leaf_count dp) = dp_num_leaves dp
      \<and> length (indices dp) = dp_num_data dp
      \<and> (case used_data_indices dp of
            None \<Rightarrow> True
          | Some used \<Rightarrow> used_data_count dp \<le> length used
                         \<and> used_data_count dp \<le> dp_num_data dp
                         \<and> distinct (take (used_data_count dp) used)))"

text \<open>
  The rows \<open>Init\<close> puts on leaf 0.
\<close>

definition initial_rows :: "DataPartition \<Rightarrow> nat list" where
  "initial_rows dp =
     (case used_data_indices dp of
        None \<Rightarrow> [0..<dp_num_data dp]
      | Some used \<Rightarrow> take (used_data_count dp) used)"

text \<open>
  Every call of a sequence names leaves of the partition, and its right leaf has no rows
  when the call is made.
\<close>

fun calls_ok :: "(nat \<times> Bin \<times> nat \<times> nat) list \<Rightarrow> error + DataPartition \<Rightarrow> bool" where
  "calls_ok [] s = True"
| "calls_ok (c # rest) (Inl e) = True"
| "calls_ok ((leaf, feature_bins, threshold, right_leaf) # rest) (Inr dp) =
     (leaf < dp_num_leaves dp \<and> right_leaf < dp_num_leaves dp
      \<and> leaf_count dp ! right_leaf = 0
      \<and> calls_ok rest (DataPartition_Split leaf feature_bins threshold right_leaf dp))"

section \<open>Theorems\<close>

subsection \<open>Predictor\<close>

lemma put_values_length:
  "put_values nf ps buf = Inr buf' \<Longrightarrow> length buf' = length buf"
  by (induction ps arbitrary: buf) (auto split: if_splits)

lemma put_values_filter:
  "put_values nf ps buf = put_values nf (filter (\<lambda>p. fst p < int nf) ps) buf"
  by (induction ps arbitrary: buf) auto

lemma put_values_nonneg:
  "\<forall>p \<in> set ps. 0 \<le> fst p \<Longrightarrow> \<exists>buf'. put_values nf ps buf = Inr buf'"
  by (induction ps arbitrary: buf) auto

lemma put_values_nth:
  "put_values nf ps buf = Inr buf' \<Longrightarrow> length buf = nf \<Longrightarrow> j < nf \<Longrightarrow>
   buf' ! j = (case map_of (rev ps) (int j) of None \<Rightarrow> buf ! j | Some v \<Rightarrow> v)"
proof (induction ps arbitrary: buf)
  case Nil
  then show ?case by simp
next
  case (Cons p ps)
  obtain i v where p: "p = (i, v)" by (cases p)
  show ?case
  proof (cases "i < int nf")
    case False
    with Cons.prems p have run: "put_values nf ps buf = Inr buf'" by simp
    from False \<open>j < nf\<close> have "int j \<noteq> i" by simp
    with Cons.IH[OF run Cons.prems(2,3)] p show ?thesis
      by (simp add: map_add_def split: option.splits)
  next
    case True
    with Cons.prems p have nonneg: "0 \<le> i"
      and run: "put_values nf ps (buf[nat i := v]) = Inr buf'"
      by (auto split: if_splits)
    have len: "length (buf[nat i := v]) = nf" using Cons.prems(2) by simp
    from Cons.IH[OF run len Cons.prems(3)]
    have eq: "buf' ! j = (case map_of (rev ps) (int j) of
                 None \<Rightarrow> buf[nat i := v] ! j | Some v \<Rightarrow> v)" .
    show ?thesis
    proof (cases "int j = i")
      case True
      then have "nat i = j" by simp
      with eq True p Cons.prems(2,3) show ?thesis
        by (simp add: map_add_def split: option.splits)
    next
      case False
      then have "nat i \<noteq> j" using nonneg by auto
      with eq False p show ?thesis
        by (simp add: map_add_def split: option.splits)
    qed
  qed
qed

text \<open>
  C10. The buffer of the calling thread is zeroed and then written only at indices below
  \<open>num_features\<close>: the pairs whose index is \<open>num_features\<close> or more change nothing (the
  call is the call on the row without them, and no error comes from them), and for a row
  of non-negative indices the call succeeds, the buffer keeps its length, and every
  position holds the row's value for that feature, 0 when the row has none.
\<close>

theorem PutFeatureValuesToBuffer_bounds:
  "PutFeatureValuesToBuffer pr tid features
     = PutFeatureValuesToBuffer pr tid (filter (\<lambda>p. fst p < int (num_features pr)) features)
   \<and> (tid < length (features_bufs pr) \<and> (\<forall>p \<in> set features. 0 \<le> fst p) \<longrightarrow>
        (\<exists>buf. PutFeatureValuesToBuffer pr tid features
                  = Inr (tid, pr\<lparr>features_bufs := (features_bufs pr)[tid := buf]\<rparr>)
              \<and> length buf = num_features pr
              \<and> (\<forall>j < num_features pr. buf ! j = row_value features j)))"
proof (intro conjI impI)
  show "PutFeatureValuesToBuffer pr tid features
     = PutFeatureValuesToBuffer pr tid (filter (\<lambda>p. fst p < int (num_features pr)) features)"
    unfolding PutFeatureValuesToBuffer_def
    using put_values_filter[of "num_features pr" features] by simp
next
  assume a: "tid < length (features_bufs pr) \<and> (\<forall>p \<in> set features. 0 \<le> fst p)"
  let ?nf = "num_features pr"
  from a put_values_nonneg[of features ?nf "replicate ?nf 0"]
  obtain buf where run: "put_values ?nf features (replicate ?nf 0) = Inr buf" by blast
  have len: "length buf = ?nf" using put_values_length[OF run] by simp
  have vals: "\<forall>j < ?nf. buf ! j = row_value features j"
  proof (intro allI impI)
    fix j assume "j < ?nf"
    with put_values_nth[OF run, of j] show "buf ! j = row_value features j"
      by (simp add: row_value_def split: option.splits)
  qed
  from a run have "PutFeatureValuesToBuffer pr tid features
        = Inr (tid, pr\<lparr>features_bufs := (features_bufs pr)[tid := buf]\<rparr>)"
    by (simp add: PutFeatureValuesToBuffer_def)
  with len vals show "\<exists>buf. PutFeatureValuesToBuffer pr tid features
                  = Inr (tid, pr\<lparr>features_bufs := (features_bufs pr)[tid := buf]\<rparr>)
              \<and> length buf = num_features pr
              \<and> (\<forall>j < num_features pr. buf ! j = row_value features j)"
    by blast
qed

theorem PutFeatureValuesToBuffer_bounds_witness:
  "PutFeatureValuesToBuffer \<lparr>num_features = 3, features_bufs = [[9, 9, 9], [8, 8, 8]]\<rparr> 1
       [(1, 5), (7, 2), (3, 4), (1, 6)]
     = Inr (1, \<lparr>num_features = 3, features_bufs = [[9, 9, 9], [0, 6, 0]]\<rparr>)
   \<and> PutFeatureValuesToBuffer \<lparr>num_features = 3, features_bufs = [[9, 9, 9], [8, 8, 8]]\<rparr> 1
       [(1, 5), (7, 2), (3, 4), (1, 6)]
     = PutFeatureValuesToBuffer \<lparr>num_features = 3, features_bufs = [[9, 9, 9], [8, 8, 8]]\<rparr> 1
       (filter (\<lambda>p. fst p < int 3) [(1, 5), (7, 2), (3, 4), (1, 6)])"
  using PutFeatureValuesToBuffer_bounds
    [of "\<lparr>num_features = 3, features_bufs = [[9, 9, 9], [8, 8, 8]]\<rparr>" 1
        "[(1, 5), (7, 2), (3, 4), (1, 6)]"]
  by (simp add: PutFeatureValuesToBuffer_def numeral_3_eq_3)

subsection \<open>Query boundaries\<close>

text \<open>
  C8. On a dataset of 5 rows, setting the field \<open>group\<close> to the two query sizes 2 and 3
  succeeds, and the stored array is the sizes themselves: two entries where the invariant
  wants three, the first one 2 and not 0, the last one 3 and not 5. The sibling
  \<open>LoadQueryBoundaries\<close> stores 0, 2, 5 for the same sizes, which satisfies the invariant.
\<close>

theorem SetIntField_group_breaks_invariant:
  "SetIntField \<lparr>num_data = 5, num_queries = 0, query_boundaries = [], weights = [],
                query_weights = []\<rparr> ''group'' (Some [2, 3])
     = Inr (True, \<lparr>num_data = 5, num_queries = 2, query_boundaries = [2, 3], weights = [],
                   query_weights = []\<rparr>)
   \<and> \<not> query_boundaries_ok \<lparr>num_data = 5, num_queries = 2, query_boundaries = [2, 3],
                             weights = [], query_weights = []\<rparr>
   \<and> query_boundaries_ok
       (LoadQueryBoundaries \<lparr>num_data = 5, num_queries = 0, query_boundaries = [],
                             weights = [], query_weights = []\<rparr> [2, 3])"
  by (simp add: SetIntField_def SetQueryBoundaries_def LoadQueryWeights_def Trim_def
      is_space_def query_boundaries_ok_def LoadQueryBoundaries_def)

subsection \<open>Prediction and model loading\<close>

lemma scan_key_none:
  "\<forall>l \<in> set ls. \<not> contains key l \<Longrightarrow> scan_key key ls i = (i + length ls, None)"
  by (induction ls arbitrary: i) auto





lemma load_no_sigmoid:
  assumes "ModelsFromString parse_tree m0 str = Inr m"
    and "\<forall>l \<in> set (Split str (CHR 0x0A)). \<not> contains ''sigmoid='' l"
  shows "sigmoid m = - 1"
proof -
  let ?ls = "Split str (CHR 0x0A)"
  have "scan_key ''sigmoid='' ?ls 0 = (length ?ls, None)"
    using scan_key_none[of ?ls "''sigmoid=''" 0] assms(2) by simp
  with assms(1) show ?thesis
    by (auto simp: ModelsFromString_def Let_def split: prod.splits if_splits sum.splits)
qed

text \<open>
  C9. \<open>Predict\<close> is \<open>PredictRaw\<close> when \<open>sigmoid \<le> 0\<close>, and the logistic transform
  \<open>1 / (1 + exp (- 2 * sigmoid * raw))\<close> of the raw sum when \<open>sigmoid > 0\<close>; a model that
  \<open>ModelsFromString\<close> loaded from a text without a \<open>sigmoid=\<close> line has \<open>sigmoid = - 1\<close>
  and so predicts the raw sum.
\<close>

theorem Predict_sigmoid_transform:
  "(sigmoid m \<le> 0 \<longrightarrow> Predict m x = PredictRaw m x)
   \<and> (sigmoid m > 0 \<longrightarrow>
        Predict m x = (case PredictRaw m x of
                         Inl e \<Rightarrow> Inl e
                       | Inr raw \<Rightarrow> Inr (1 / (1 + exp (- 2 * sigmoid m * raw)))))
   \<and> (ModelsFromString parse_tree m0 str = Inr m
        \<and> (\<forall>l \<in> set (Split str (CHR 0x0A)). \<not> contains ''sigmoid='' l)
      \<longrightarrow> sigmoid m = - 1 \<and> Predict m x = PredictRaw m x)"
proof (intro conjI impI)
  show "Predict m x = PredictRaw m x" if "sigmoid m \<le> 0"
    using that by (simp add: Predict_def PredictRaw_def)
  show "Predict m x = (case PredictRaw m x of
                         Inl e \<Rightarrow> Inl e
                       | Inr raw \<Rightarrow> Inr (1 / (1 + exp (- 2 * sigmoid m * raw))))"
    if "sigmoid m > 0"
    using that by (simp add: Predict_def PredictRaw_def)
  assume a: "ModelsFromString parse_tree m0 str = Inr m
        \<and> (\<forall>l \<in> set (Split str (CHR 0x0A)). \<not> contains ''sigmoid='' l)"
  then show sg: "sigmoid m = - 1" using load_no_sigmoid[of parse_tree m0 str m] by blast
  then show "Predict m x = PredictRaw m x"
    by (simp add: Predict_def PredictRaw_def)
qed

theorem Predict_sigmoid_transform_witness:
  "ModelsFromString (\<lambda>s. Inr (Leaf 2))
        \<lparr>num_class = 0, label_idx = 0, max_feature_idx = 0, sigmoid = 0,
         models = [], num_used_model = 0\<rparr>
        (''num_class=1'' @ [CHR 0x0A] @ ''label_index=0'' @ [CHR 0x0A]
         @ ''max_feature_idx=3'' @ [CHR 0x0A] @ ''Tree=0'' @ [CHR 0x0A])
      = Inr \<lparr>num_class = 1, label_idx = 0, max_feature_idx = 3, sigmoid = - 1,
             models = [Leaf 2], num_used_model = 1\<rparr>
   \<and> Predict \<lparr>num_class = 1, label_idx = 0, max_feature_idx = 3, sigmoid = - 1,
            models = [Leaf 2], num_used_model = 1\<rparr> (\<lambda>i. 0) = Inr 2
   \<and> PredictRaw \<lparr>num_class = 1, label_idx = 0, max_feature_idx = 3, sigmoid = - 1,
            models = [Leaf 2], num_used_model = 1\<rparr> (\<lambda>i. 0) = Inr 2
   \<and> PredictRaw \<lparr>num_class = 1, label_idx = 0, max_feature_idx = 1, sigmoid = 1,
            models = [Node 0 (1/2) (Leaf 1) (Leaf 3), Leaf (- 1), Leaf 7], num_used_model = 2\<rparr>
       (\<lambda>i. 0) = Inr 0
   \<and> Predict \<lparr>num_class = 1, label_idx = 0, max_feature_idx = 1, sigmoid = 1,
            models = [Node 0 (1/2) (Leaf 1) (Leaf 3), Leaf (- 1), Leaf 7], num_used_model = 2\<rparr>
       (\<lambda>i. 0) = Inr (1 / 2)"
proof -
  let ?fresh = "\<lparr>num_class = 0, label_idx = 0, max_feature_idx = 0, sigmoid = 0,
         models = [], num_used_model = 0\<rparr>"
  let ?str = "''num_class=1'' @ [CHR 0x0A] @ ''label_index=0'' @ [CHR 0x0A]
         @ ''max_feature_idx=3'' @ [CHR 0x0A] @ ''Tree=0'' @ [CHR 0x0A]"
  let ?mdl = "\<lparr>num_class = 1, label_idx = 0, max_feature_idx = 3, sigmoid = - 1,
            models = [Leaf 2], num_used_model = 1\<rparr>"
  let ?mdlb = "\<lparr>num_class = 1, label_idx = 0, max_feature_idx = 1, sigmoid = 1,
            models = [Node 0 (1/2) (Leaf 1) (Leaf 3), Leaf (- 1), Leaf 7], num_used_model = 2\<rparr>"
  have load: "ModelsFromString (\<lambda>s. Inr (Leaf 2)) ?fresh ?str = Inr ?mdl"
    by (simp add: ModelsFromString_def Atoi_def skip_blanks_def is_digit_def digit_val_def
        c_div_def)
  have nosig: "\<forall>l \<in> set (Split ?str (CHR 0x0A)). \<not> contains ''sigmoid='' l"
    by simp
  have raw: "PredictRaw ?mdl (\<lambda>i. 0) = Inr 2"
    by (simp add: PredictRaw_def)
  have raw2: "PredictRaw ?mdlb (\<lambda>i. 0) = Inr 0"
    by (simp add: PredictRaw_def numeral_2_eq_2)
  from Predict_sigmoid_transform[of ?mdl "\<lambda>i. 0" "\<lambda>s. Inr (Leaf 2)" ?fresh ?str] load nosig
  have p1: "Predict ?mdl (\<lambda>i. 0) = PredictRaw ?mdl (\<lambda>i. 0)" by blast
  have "sigmoid ?mdlb > 0" by simp
  with Predict_sigmoid_transform[of ?mdlb "\<lambda>i. 0" "\<lambda>s. Inr (Leaf 2)" ?fresh ?str]
  have "Predict ?mdlb (\<lambda>i. 0) = (case PredictRaw ?mdlb (\<lambda>i. 0) of
                         Inl e \<Rightarrow> Inl e
                       | Inr raw \<Rightarrow> Inr (1 / (1 + exp (- 2 * sigmoid ?mdlb * raw))))"
    by blast
  with raw2 have p2: "Predict ?mdlb (\<lambda>i. 0) = Inr (1 / 2)" by simp
  from load p1 raw raw2 p2 show ?thesis by simp
qed




text \<open>
  A header on the very last line is found and parsed, but \<open>i\<close> is incremented before the
  test \<open>i == lines.size()\<close>, so the loader reports it as missing. The loaders of the
  sources end every line with a newline, which leaves an empty last line.
\<close>

lemma ModelsFromString_header_on_last_line:
  "ModelsFromString (\<lambda>s. Inr (Leaf 2))
        \<lparr>num_class = 0, label_idx = 0, max_feature_idx = 0, sigmoid = 0,
         models = [], num_used_model = 0\<rparr>
        (''num_class=1'' @ [CHR 0x0A] @ ''label_index=0'' @ [CHR 0x0A]
         @ ''max_feature_idx=3'')
      = Inl FatalNoMaxFeatureIdx"
  by (simp add: ModelsFromString_def Atoi_def Atof_def skip_blanks_def is_digit_def
      digit_val_def to_lower_def is_token_end_def)

subsection \<open>The LRU pool\<close>

lemma ArgMin_least:
  "xs \<noteq> [] \<Longrightarrow> ArgMin xs < length xs \<and> (\<forall>j < length xs. xs ! ArgMin xs \<le> xs ! j)"
proof (induction xs rule: ArgMin.induct)
  case 1
  then show ?case by simp
next
  case (2 x)
  then show ?case by simp
next
  case (3 x y ys)
  let ?r = "ArgMin (y # ys)"
  from 3 have ih: "?r < length (y # ys)" "\<forall>j < length (y # ys). (y # ys) ! ?r \<le> (y # ys) ! j"
    by simp_all
  show ?case
  proof (cases "(y # ys) ! ?r < x")
    case True
    then have r: "ArgMin (x # y # ys) = Suc ?r" by (simp add: Let_def)
    have "(x # y # ys) ! Suc ?r \<le> (x # y # ys) ! j" if "j < length (x # y # ys)" for j
    proof (cases j)
      case 0
      with True show ?thesis by simp
    next
      case (Suc k)
      with that ih(2) show ?thesis by simp
    qed
    with r ih(1) show ?thesis by simp
  next
    case False
    then have r: "ArgMin (x # y # ys) = 0" by (simp add: Let_def)
    have "(x # y # ys) ! 0 \<le> (x # y # ys) ! j" if "j < length (x # y # ys)" for j
    proof (cases j)
      case 0
      then show ?thesis by simp
    next
      case (Suc k)
      with that have "k < length (y # ys)" by simp
      with ih(2) have "(y # ys) ! ?r \<le> (y # ys) ! k" by blast
      with False Suc show ?thesis by simp
    qed
    with r show ?thesis by simp
  qed
qed

lemma ResetSize_ok:
  assumes "ResetSize fresh p0 c t = Inr p"
  shows "pool_ok p \<and> (is_enough p \<longleftrightarrow> \<not> c < t)"
  using assms
  by (auto simp: ResetSize_def ResetMap_def pool_ok_def Let_def list_all_length
      split: if_splits)

lemma Get_enough:
  "is_enough p \<Longrightarrow> idx < length (pool p) \<Longrightarrow> Get p idx = Inr (True, pool p ! idx, p)"
  by (simp add: Get_def)

lemma Get_hit:
  assumes ok: "pool_ok p" and ne: "\<not> is_enough p" and idx: "idx < nat (total_size p)"
    and t: "cur_time p < INT_MAX" and hit: "0 \<le> mapper p ! idx"
  shows "Get p idx = Inr (True, pool p ! nat (mapper p ! idx),
            p\<lparr>cur_time := cur_time p + 1,
              last_used_time := (last_used_time p)[nat (mapper p ! idx) := cur_time p + 1]\<rparr>)"
proof -
  from ok ne idx have "mapper p ! idx < cache_size p" "idx < length (mapper p)"
    by (auto simp: pool_ok_def list_all_length)
  with ok ne hit have "nat (mapper p ! idx) < length (pool p)"
    "nat (mapper p ! idx) < length (last_used_time p)"
    by (auto simp: pool_ok_def)
  with ne idx hit t \<open>idx < length (mapper p)\<close> show ?thesis
    by (simp add: Get_def Let_def)
qed

lemma Get_miss:
  assumes ok: "pool_ok p" and ne: "\<not> is_enough p" and idx: "idx < nat (total_size p)"
    and t: "cur_time p < INT_MAX" and miss: "\<not> 0 \<le> mapper p ! idx"
  shows "\<exists>slot. slot < nat (cache_size p)
           \<and> slot = ArgMin (take (nat (cache_size p)) (last_used_time p))
           \<and> (\<forall>j < nat (cache_size p). last_used_time p ! slot \<le> last_used_time p ! j)
           \<and> Get p idx = Inr (False, pool p ! slot,
                 p\<lparr>cur_time := cur_time p + 1,
                   last_used_time := (last_used_time p)[slot := cur_time p + 1],
                   mapper := (if 0 \<le> inverse_mapper p ! slot
                              then (mapper p)[nat (inverse_mapper p ! slot) := - 1]
                              else mapper p)[idx := int slot],
                   inverse_mapper := (inverse_mapper p)[slot := int idx]\<rparr>)"
proof -
  let ?n = "nat (cache_size p)"
  let ?lt = "take ?n (last_used_time p)"
  let ?slot = "ArgMin ?lt"
  from ok ne have len: "length (last_used_time p) = ?n" "length (pool p) = ?n"
    "length (inverse_mapper p) = ?n" "length (mapper p) = nat (total_size p)"
    "2 \<le> cache_size p"
    by (auto simp: pool_ok_def)
  then have ne_lt: "?lt \<noteq> []" by auto
  from ArgMin_least[OF ne_lt] len
  have slot: "?slot < ?n" "\<forall>j < ?n. last_used_time p ! ?slot \<le> last_used_time p ! j"
    by auto
  have prev: "nat (inverse_mapper p ! ?slot) < length (mapper p)"
    if "0 \<le> inverse_mapper p ! ?slot"
    using ok ne slot(1) len that by (auto simp: pool_ok_def list_all_length)
  have "Get p idx = Inr (False, pool p ! ?slot,
                 p\<lparr>cur_time := cur_time p + 1,
                   last_used_time := (last_used_time p)[?slot := cur_time p + 1],
                   mapper := (if 0 \<le> inverse_mapper p ! ?slot
                              then (mapper p)[nat (inverse_mapper p ! ?slot) := - 1]
                              else mapper p)[idx := int ?slot],
                   inverse_mapper := (inverse_mapper p)[?slot := int idx]\<rparr>)"
    using ne idx miss t len slot(1) prev by (simp add: Get_def Let_def)
  with slot show ?thesis by blast
qed

lemma list_all_update:
  "list_all P xs \<Longrightarrow> P v \<Longrightarrow> list_all P (xs[i := v])"
  using set_update_subset_insert[of xs i v] by (auto simp: list_all_iff)

lemma Get_preserves_ok:
  assumes ok: "pool_ok p" and idx: "idx < nat (total_size p)" and g: "Get p idx = Inr (b, out, p')"
  shows "pool_ok p'"
proof (cases "is_enough p")
  case True
  with g show ?thesis using ok by (auto simp: Get_def split: if_splits)
next
  case ne: False
  from ok ne have len: "length (last_used_time p) = nat (cache_size p)"
    "length (mapper p) = nat (total_size p)" "2 \<le> cache_size p"
    and stamps: "list_all (\<lambda>t. t \<le> cur_time p) (last_used_time p)"
    and mp: "list_all (\<lambda>s. s < cache_size p) (mapper p)"
    and inv: "list_all (\<lambda>i. i < total_size p) (inverse_mapper p)"
    by (auto simp: pool_ok_def)
  have stamps': "list_all (\<lambda>t. t \<le> cur_time p + 1) ((last_used_time p)[s := cur_time p + 1])"
    for s
    unfolding list_all_length
  proof (intro allI impI)
    fix n assume "n < length ((last_used_time p)[s := cur_time p + 1])"
    then have n: "n < length (last_used_time p)" by simp
    with stamps have "last_used_time p ! n \<le> cur_time p" by (simp add: list_all_length)
    with n show "(last_used_time p)[s := cur_time p + 1] ! n \<le> cur_time p + 1"
      by (cases "n = s") auto
  qed
  show ?thesis
  proof (cases "0 \<le> mapper p ! idx")
    case True
    with g ne have "p' = p\<lparr>cur_time := cur_time p + 1,
              last_used_time := (last_used_time p)[nat (mapper p ! idx) := cur_time p + 1]\<rparr>"
      by (auto simp: Get_def Let_def split: if_splits)
    with ok ne stamps' show ?thesis by (simp add: pool_ok_def)
  next
    case False
    let ?slot = "ArgMin (take (nat (cache_size p)) (last_used_time p))"
    from len have "take (nat (cache_size p)) (last_used_time p) \<noteq> []" by auto
    from ArgMin_least[OF this] len have slot: "?slot < nat (cache_size p)" by simp
    from g ne False have p': "p' = p\<lparr>cur_time := cur_time p + 1,
                   last_used_time := (last_used_time p)[?slot := cur_time p + 1],
                   mapper := (if 0 \<le> inverse_mapper p ! ?slot
                              then (mapper p)[nat (inverse_mapper p ! ?slot) := - 1]
                              else mapper p)[idx := int ?slot],
                   inverse_mapper := (inverse_mapper p)[?slot := int idx]\<rparr>"
      by (auto simp: Get_def Let_def split: if_splits)
    have m': "list_all (\<lambda>s. s < cache_size p)
               ((if 0 \<le> inverse_mapper p ! ?slot
                 then (mapper p)[nat (inverse_mapper p ! ?slot) := - 1]
                 else mapper p)[idx := int ?slot])"
      using mp slot len(3) by (auto intro!: list_all_update)
    have i': "list_all (\<lambda>i. i < total_size p) ((inverse_mapper p)[?slot := int idx])"
      using inv idx by (auto intro!: list_all_update)
    from ok ne show ?thesis unfolding p' using stamps' m' i' by (simp add: pool_ok_def)
  qed
qed

text \<open>
  C6. \<open>ResetSize\<close> rejects a cache size below 2, and the pool it builds maps indices
  exactly when the cache size is below the total size. When the cache covers all indices
  \<open>Get\<close> returns the pool entry at the index and changes nothing. Otherwise (counter
  below \<open>INT_MAX\<close>) \<open>Get\<close> returns true exactly when the index is mapped to a slot; it
  advances the counter by one and stamps the touched slot with the new value, which is
  above every stamp of before; on a hit the maps are unchanged; on a miss the slot is one
  whose stamp is minimal, the index that slot held before is unmapped, and the index and
  the slot are mapped to each other.
\<close>

theorem LRUPool_Get:
  "(c < 2 \<longrightarrow> ResetSize fresh p0 c t = Inl CheckFailed)
   \<and> (ResetSize fresh p0 c t = Inr p1 \<longrightarrow> pool_ok p1 \<and> (is_enough p1 \<longleftrightarrow> \<not> c < t))
   \<and> (is_enough p \<and> idx < length (pool p) \<longrightarrow> Get p idx = Inr (True, pool p ! idx, p))
   \<and> (pool_ok p \<and> \<not> is_enough p \<and> idx < nat (total_size p) \<and> cur_time p < INT_MAX \<longrightarrow>
        (\<exists>slot < nat (cache_size p). \<exists>p'.
           Get p idx = Inr (0 \<le> mapper p ! idx, pool p ! slot, p')
           \<and> pool_ok p'
           \<and> cur_time p' = cur_time p + 1
           \<and> last_used_time p' = (last_used_time p)[slot := cur_time p']
           \<and> (\<forall>s < nat (cache_size p). last_used_time p ! s < cur_time p')
           \<and> (0 \<le> mapper p ! idx \<longrightarrow>
                 slot = nat (mapper p ! idx) \<and> mapper p' = mapper p
                 \<and> inverse_mapper p' = inverse_mapper p)
           \<and> (\<not> 0 \<le> mapper p ! idx \<longrightarrow>
                 (\<forall>j < nat (cache_size p). last_used_time p ! slot \<le> last_used_time p ! j)
                 \<and> mapper p' ! idx = int slot
                 \<and> inverse_mapper p' ! slot = int idx
                 \<and> (\<forall>old. inverse_mapper p ! slot = int old \<and> old \<noteq> idx
                            \<longrightarrow> mapper p' ! old = - 1))))"
proof (intro conjI impI)
  show "ResetSize fresh p0 c t = Inl CheckFailed" if "c < 2"
    using that by (simp add: ResetSize_def)
  show "pool_ok p1" "is_enough p1 \<longleftrightarrow> \<not> c < t" if "ResetSize fresh p0 c t = Inr p1"
    using ResetSize_ok[OF that] by simp_all
  show "Get p idx = Inr (True, pool p ! idx, p)" if "is_enough p \<and> idx < length (pool p)"
    using that Get_enough by blast
next
  assume a: "pool_ok p \<and> \<not> is_enough p \<and> idx < nat (total_size p) \<and> cur_time p < INT_MAX"
  then have ok: "pool_ok p" and ne: "\<not> is_enough p" and idx: "idx < nat (total_size p)"
    and t: "cur_time p < INT_MAX" by simp_all
  let ?n = "nat (cache_size p)"
  from ok ne have len: "length (last_used_time p) = ?n" "length (mapper p) = nat (total_size p)"
    "length (inverse_mapper p) = ?n"
    and stamps: "list_all (\<lambda>t. t \<le> cur_time p) (last_used_time p)"
    and mp: "list_all (\<lambda>s. s < cache_size p) (mapper p)"
    and inv: "list_all (\<lambda>i. i < total_size p) (inverse_mapper p)"
    by (auto simp: pool_ok_def)
  have old_stamps: "\<forall>s < ?n. last_used_time p ! s < cur_time p + 1"
    using stamps len by (auto simp: list_all_length)
  show "\<exists>slot < nat (cache_size p). \<exists>p'.
           Get p idx = Inr (0 \<le> mapper p ! idx, pool p ! slot, p')
           \<and> pool_ok p'
           \<and> cur_time p' = cur_time p + 1
           \<and> last_used_time p' = (last_used_time p)[slot := cur_time p']
           \<and> (\<forall>s < nat (cache_size p). last_used_time p ! s < cur_time p')
           \<and> (0 \<le> mapper p ! idx \<longrightarrow>
                 slot = nat (mapper p ! idx) \<and> mapper p' = mapper p
                 \<and> inverse_mapper p' = inverse_mapper p)
           \<and> (\<not> 0 \<le> mapper p ! idx \<longrightarrow>
                 (\<forall>j < nat (cache_size p). last_used_time p ! slot \<le> last_used_time p ! j)
                 \<and> mapper p' ! idx = int slot
                 \<and> inverse_mapper p' ! slot = int idx
                 \<and> (\<forall>old. inverse_mapper p ! slot = int old \<and> old \<noteq> idx
                            \<longrightarrow> mapper p' ! old = - 1))"
  proof (cases "0 \<le> mapper p ! idx")
    case True
    let ?slot = "nat (mapper p ! idx)"
    let ?p' = "p\<lparr>cur_time := cur_time p + 1,
              last_used_time := (last_used_time p)[?slot := cur_time p + 1]\<rparr>"
    from Get_hit[OF ok ne idx t True] have g: "Get p idx = Inr (True, pool p ! ?slot, ?p')" .
    from Get_preserves_ok[OF ok idx g] have ok': "pool_ok ?p'" .
    from mp idx len True have "?slot < ?n" by (auto simp: list_all_length)
    with g ok' True old_stamps show ?thesis
      by (intro exI[of _ ?slot] conjI exI[of _ ?p']) simp_all
  next
    case False
    from Get_miss[OF ok ne idx t False] obtain slot where slot: "slot < ?n"
      "\<forall>j < ?n. last_used_time p ! slot \<le> last_used_time p ! j"
      and g: "Get p idx = Inr (False, pool p ! slot,
                 p\<lparr>cur_time := cur_time p + 1,
                   last_used_time := (last_used_time p)[slot := cur_time p + 1],
                   mapper := (if 0 \<le> inverse_mapper p ! slot
                              then (mapper p)[nat (inverse_mapper p ! slot) := - 1]
                              else mapper p)[idx := int slot],
                   inverse_mapper := (inverse_mapper p)[slot := int idx]\<rparr>)"
      by blast
    let ?p' = "p\<lparr>cur_time := cur_time p + 1,
                   last_used_time := (last_used_time p)[slot := cur_time p + 1],
                   mapper := (if 0 \<le> inverse_mapper p ! slot
                              then (mapper p)[nat (inverse_mapper p ! slot) := - 1]
                              else mapper p)[idx := int slot],
                   inverse_mapper := (inverse_mapper p)[slot := int idx]\<rparr>"
    from Get_preserves_ok[OF ok idx g] have ok': "pool_ok ?p'" .
    have m1: "mapper ?p' ! idx = int slot" using idx len by simp
    have m2: "inverse_mapper ?p' ! slot = int idx" using slot(1) len by simp
    have m3: "mapper ?p' ! old = - 1" if "inverse_mapper p ! slot = int old" "old \<noteq> idx" for old
    proof -
      from inv slot(1) len that(1) have "old < length (mapper p)"
        by (auto simp: list_all_length)
      with that show ?thesis by simp
    qed
    from g False ok' old_stamps slot m1 m2 m3 show ?thesis
      by (intro exI[of _ slot] conjI exI[of _ ?p']) simp_all
  qed
qed

theorem LRUPool_Get_witness:
  "ResetSize (0::nat) \<lparr>pool = [], cache_size = 0, total_size = 0, is_enough = False, mapper = [],
       inverse_mapper = [], last_used_time = [], cur_time = 0\<rparr> 1 3 = Inl CheckFailed
   \<and> ResetSize (0::nat) \<lparr>pool = [], cache_size = 0, total_size = 0, is_enough = False,
       mapper = [], inverse_mapper = [], last_used_time = [], cur_time = 0\<rparr> 2 3
     = Inr \<lparr>pool = [0, 0], cache_size = 2, total_size = 3, is_enough = False,
            mapper = [- 1, - 1, - 1], inverse_mapper = [- 1, - 1], last_used_time = [0, 0],
            cur_time = 0\<rparr>
   \<and> Get \<lparr>pool = [7, 8, 9::nat], cache_size = 3, total_size = 3, is_enough = True,
           mapper = [], inverse_mapper = [], last_used_time = [], cur_time = 0\<rparr> 2
     = Inr (True, 9, \<lparr>pool = [7, 8, 9], cache_size = 3, total_size = 3, is_enough = True,
           mapper = [], inverse_mapper = [], last_used_time = [], cur_time = 0\<rparr>)
   \<and> Get \<lparr>pool = [7, 8::nat], cache_size = 2, total_size = 3, is_enough = False,
           mapper = [0, - 1, 1], inverse_mapper = [0, 2], last_used_time = [5, 4],
           cur_time = 5\<rparr> 1
     = Inr (False, 8, \<lparr>pool = [7, 8], cache_size = 2, total_size = 3, is_enough = False,
           mapper = [0, 1, - 1], inverse_mapper = [0, 1], last_used_time = [5, 6],
           cur_time = 6\<rparr>)
   \<and> Get \<lparr>pool = [7, 8::nat], cache_size = 2, total_size = 3, is_enough = False,
           mapper = [0, 1, - 1], inverse_mapper = [0, 1], last_used_time = [5, 6],
           cur_time = 6\<rparr> 0
     = Inr (True, 7, \<lparr>pool = [7, 8], cache_size = 2, total_size = 3, is_enough = False,
           mapper = [0, 1, - 1], inverse_mapper = [0, 1], last_used_time = [7, 6],
           cur_time = 7\<rparr>)"
proof -
  let ?p0 = "\<lparr>pool = [], cache_size = 0, total_size = 0, is_enough = False, mapper = [],
       inverse_mapper = [], last_used_time = [], cur_time = 0\<rparr> :: nat LRUPool"
  let ?full = "\<lparr>pool = [7, 8, 9::nat], cache_size = 3, total_size = 3, is_enough = True,
           mapper = [], inverse_mapper = [], last_used_time = [], cur_time = 0\<rparr>"
  let ?pa = "\<lparr>pool = [7, 8::nat], cache_size = 2, total_size = 3, is_enough = False,
           mapper = [0, - 1, 1], inverse_mapper = [0, 2], last_used_time = [5, 4],
           cur_time = 5\<rparr>"
  let ?pb = "\<lparr>pool = [7, 8::nat], cache_size = 2, total_size = 3, is_enough = False,
           mapper = [0, 1, - 1], inverse_mapper = [0, 1], last_used_time = [5, 6],
           cur_time = 6\<rparr>"
  note inst = LRUPool_Get[of 1 0 ?p0 3 _ ?full 2]
  have "(1::int) < 2" by simp
  with inst have r1: "ResetSize (0::nat) ?p0 1 3 = Inl CheckFailed" by blast
  have r2: "ResetSize (0::nat) ?p0 2 3
     = Inr \<lparr>pool = [0, 0], cache_size = 2, total_size = 3, is_enough = False,
            mapper = [- 1, - 1, - 1], inverse_mapper = [- 1, - 1], last_used_time = [0, 0],
            cur_time = 0\<rparr>"
    by (simp add: ResetSize_def ResetMap_def numeral_2_eq_2 numeral_3_eq_3)
  have "is_enough ?full \<and> 2 < length (pool ?full)" by simp
  with inst have g1: "Get ?full 2 = Inr (True, pool ?full ! 2, ?full)" by blast
  have hyp_a: "pool_ok ?pa \<and> \<not> is_enough ?pa \<and> 1 < nat (total_size ?pa)
               \<and> cur_time ?pa < INT_MAX"
    by (simp add: pool_ok_def INT_MAX_def)
  have g2: "Get ?pa 1 = Inr (False, 8, \<lparr>pool = [7, 8], cache_size = 2, total_size = 3,
           is_enough = False, mapper = [0, 1, - 1], inverse_mapper = [0, 1],
           last_used_time = [5, 6], cur_time = 6\<rparr>)"
    using LRUPool_Get[of _ _ _ _ _ ?pa 1] hyp_a
    by (simp add: Get_def INT_MAX_def numeral_2_eq_2)
  have hyp_b: "pool_ok ?pb \<and> \<not> is_enough ?pb \<and> 0 < nat (total_size ?pb)
               \<and> cur_time ?pb < INT_MAX"
    by (simp add: pool_ok_def INT_MAX_def)
  have g3: "Get ?pb 0 = Inr (True, 7, \<lparr>pool = [7, 8], cache_size = 2, total_size = 3,
           is_enough = False, mapper = [0, 1, - 1], inverse_mapper = [0, 1],
           last_used_time = [7, 6], cur_time = 7\<rparr>)"
    using LRUPool_Get[of _ _ _ _ _ ?pb 0] hyp_b
    by (simp add: Get_def INT_MAX_def)
  from r1 r2 g1 g2 g3 show ?thesis by simp
qed

subsection \<open>Early stopping\<close>















subsection \<open>DART\<close>





lemma num_leaves_Shrinkage: "num_leaves (Shrinkage a t) = num_leaves t"
  by (induction t) auto





























subsection \<open>Bagging\<close>

lemma bag_queries_split:
  assumes "\<forall>i \<in> set qs. i + 1 < length qb" "distinct qs"
  shows "\<exists>chosen. bag_queries draw qb nq bqc qs cur bag oob
           = Inr (bag @ concat (map (query_rows qb) (filter (\<lambda>q. q \<in> chosen) qs)),
                  oob @ concat (map (query_rows qb) (filter (\<lambda>q. q \<notin> chosen) qs)))"
  using assms
proof (induction qs arbitrary: cur bag oob)
  case Nil
  then show ?case by simp
next
  case (Cons i rest)
  from Cons.prems have i: "i + 1 < length qb" and r: "\<forall>i \<in> set rest. i + 1 < length qb"
    and ni: "i \<notin> set rest" and d: "distinct rest"
    by simp_all
  let ?prob = "real_of_int (bqc - cur) / real_of_int (nq - int i)"
  have f1: "filter (\<lambda>q. q \<in> insert i chosen) rest = filter (\<lambda>q. q \<in> chosen) rest"
    for chosen using ni by (intro filter_cong) auto
  have f2: "filter (\<lambda>q. q \<notin> insert i chosen) rest = filter (\<lambda>q. q \<notin> chosen) rest"
    for chosen using ni by (intro filter_cong) auto
  have g1: "filter (\<lambda>q. q \<in> chosen - {i}) rest = filter (\<lambda>q. q \<in> chosen) rest"
    for chosen using ni by (intro filter_cong) auto
  have g2: "filter (\<lambda>q. q \<notin> chosen - {i}) rest = filter (\<lambda>q. q \<notin> chosen) rest"
    for chosen using ni by (intro filter_cong) auto
  show ?case
  proof (cases "draw i < ?prob")
    case True
    from Cons.IH[OF r d, of "cur + 1" "bag @ query_rows qb i" oob] obtain chosen where
      c: "bag_queries draw qb nq bqc rest (cur + 1) (bag @ query_rows qb i) oob
           = Inr ((bag @ query_rows qb i)
                    @ concat (map (query_rows qb) (filter (\<lambda>q. q \<in> chosen) rest)),
                  oob @ concat (map (query_rows qb) (filter (\<lambda>q. q \<notin> chosen) rest)))"
      by blast
    from True i c f1[of chosen] f2[of chosen] show ?thesis
      by (intro exI[of _ "insert i chosen"]) (simp add: Let_def)
  next
    case False
    from Cons.IH[OF r d, of cur bag "oob @ query_rows qb i"] obtain chosen where
      c: "bag_queries draw qb nq bqc rest cur bag (oob @ query_rows qb i)
           = Inr (bag @ concat (map (query_rows qb) (filter (\<lambda>q. q \<in> chosen) rest)),
                  (oob @ query_rows qb i)
                    @ concat (map (query_rows qb) (filter (\<lambda>q. q \<notin> chosen) rest)))"
      by blast
    from False i c g1[of chosen] g2[of chosen] show ?thesis
      by (intro exI[of _ "chosen - {i}"]) (simp add: Let_def)
  qed
qed

lemma mset_concat_split:
  "mset (concat (map f (filter P qs))) + mset (concat (map f (filter (\<lambda>q. \<not> P q) qs)))
     = mset (concat (map f qs))"
  by (induction qs) auto

lemma upto_join:
  fixes a b c :: int
  assumes "a \<le> b" "b \<le> c"
  shows "[a .. c - 1] = [a .. b - 1] @ [b .. c - 1]"
proof (cases "a = b")
  case True
  then show ?thesis by simp
next
  case False
  with assms have "a \<le> b - 1" "b - 1 \<le> c - 1" by simp_all
  from upto_split2[OF this] show ?thesis by simp
qed

lemma rows_concat:
  assumes "sorted qb" "n < length qb"
  shows "concat (map (query_rows qb) [0..<n]) = [qb ! 0 .. qb ! n - 1]"
  using assms(2)
proof (induction n)
  case 0
  then show ?case by simp
next
  case (Suc n)
  then have ih: "concat (map (query_rows qb) [0..<n]) = [qb ! 0 .. qb ! n - 1]" by simp
  from assms(1) Suc.prems have a: "qb ! 0 \<le> qb ! n"
    by (intro sorted_nth_mono) simp_all
  from assms(1) Suc.prems have b: "qb ! n \<le> qb ! Suc n"
    by (intro sorted_nth_mono) simp_all
  have j: "[qb ! 0 .. qb ! Suc n - 1] = [qb ! 0 .. qb ! n - 1] @ [qb ! n .. qb ! Suc n - 1]"
    using a b by (rule upto_join)
  have q: "query_rows qb n = [qb ! n .. qb ! Suc n - 1]" by (simp add: query_rows_def)
  from ih j q show ?case by simp
qed

lemma Init_bagging_ok:
  "fraction < 1 \<Longrightarrow> 0 < freq \<Longrightarrow> bag_buffers_ok (Init_bagging md fraction freq b)"
  by (simp add: Init_bagging_def bag_buffers_ok_def)

lemma query_boundaries_ok_sorted:
  "query_boundaries_ok md \<Longrightarrow> sorted (query_boundaries md)"
  by (simp add: query_boundaries_ok_def Let_def strict_sorted_imp_sorted)

text \<open>
  C4. With the buffers allocated, at an iteration that is a multiple of \<open>bagging_freq\<close>,
  for training data whose query boundaries are present and well-formed, \<open>Bagging\<close> returns;
  there is a set of queries such that the bag is the rows of the queries in the set, query
  after query, and the out-of-bag rows are the rows of the other queries; the two together
  hold every row index from \<open>0\<close> to \<open>num_data - 1\<close> exactly once, and no row is in both.
\<close>

theorem Bagging_whole_queries:
  assumes ok: "bag_buffers_ok b"
    and due: "it mod bagging_freq b = 0"
    and qb: "query_boundaries (train_metadata b) \<noteq> []"
    and inv: "query_boundaries_ok (train_metadata b)"
  shows "\<exists>b' chosen. Bagging draw it b = Inr b'
           \<and> bag_buffers_ok b'
           \<and> train_metadata b' = train_metadata b
           \<and> bag_indices b' = concat (map (query_rows (query_boundaries (train_metadata b)))
                         (filter (\<lambda>q. q \<in> chosen) [0..<nat (num_queries (train_metadata b))]))
           \<and> out_of_bag_indices b' = concat (map (query_rows (query_boundaries (train_metadata b)))
                         (filter (\<lambda>q. q \<notin> chosen) [0..<nat (num_queries (train_metadata b))]))
           \<and> mset (bag_indices b' @ out_of_bag_indices b') = mset [0 .. num_data (train_metadata b) - 1]
           \<and> set (bag_indices b') \<inter> set (out_of_bag_indices b') = {}"
proof -
  let ?md = "train_metadata b"
  let ?qb = "query_boundaries ?md"
  let ?nq = "nat (num_queries ?md)"
  let ?n = "num_data ?md"
  from inv have len: "int (length ?qb) = num_queries ?md + 1" and h: "hd ?qb = 0"
    and l: "last ?qb = ?n"
    by (simp_all add: query_boundaries_ok_def Let_def)
  from qb have "0 < length ?qb" by simp
  with len have len': "length ?qb = Suc ?nq" by linarith
  have srt: "sorted ?qb" by (rule query_boundaries_ok_sorted[OF inv])
  from len' have "\<forall>i \<in> set [0..<?nq]. i + 1 < length ?qb" by simp
  from bag_queries_split[OF this distinct_upt,
      of draw "num_queries ?md" "c_trunc (real_of_int (num_queries ?md) * bagging_fraction b)"
         0 "[]" "[]"]
  obtain chosen where
    c: "bag_queries draw ?qb (num_queries ?md)
          (c_trunc (real_of_int (num_queries ?md) * bagging_fraction b)) [0..<?nq] 0 [] []
        = Inr (concat (map (query_rows ?qb) (filter (\<lambda>q. q \<in> chosen) [0..<?nq])),
               concat (map (query_rows ?qb) (filter (\<lambda>q. q \<notin> chosen) [0..<?nq])))"
    by auto
  let ?bag = "concat (map (query_rows ?qb) (filter (\<lambda>q. q \<in> chosen) [0..<?nq]))"
  let ?oob = "concat (map (query_rows ?qb) (filter (\<lambda>q. q \<notin> chosen) [0..<?nq]))"
  from len' have "?nq < length ?qb" by simp
  from rows_concat[OF srt this]
  have all: "concat (map (query_rows ?qb) [0..<?nq]) = [?qb ! 0 .. ?qb ! ?nq - 1]" .
  from qb h have q0: "?qb ! 0 = 0" by (simp add: hd_conv_nth)
  from qb l len' have qn: "?qb ! ?nq = ?n" by (simp add: last_conv_nth)
  from all q0 qn have all': "concat (map (query_rows ?qb) [0..<?nq]) = [0 .. ?n - 1]" by simp
  from mset_concat_split[of "query_rows ?qb" "\<lambda>q. q \<in> chosen" "[0..<?nq]"] all'
  have ms: "mset (?bag @ ?oob) = mset [0 .. ?n - 1]" by simp
  from srt have "?qb ! 0 \<le> ?qb ! ?nq" using len' by (intro sorted_nth_mono) simp_all
  with q0 qn have n0: "0 \<le> ?n" by simp
  from ms have "length (?bag @ ?oob) = length [0 .. ?n - 1]" by (metis size_mset)
  with n0 have lens: "length ?bag + length ?oob = nat ?n" by simp
  from ok have bl: "length (bag_data_indices b) = nat ?n"
    and ol: "length (out_of_bag_data_indices b) = nat ?n"
    and hb: "has_bag_buffers b"
    by (simp_all add: bag_buffers_ok_def)
  from lens bl have w1: "write_prefix ?bag (bag_data_indices b)
      = Inr (?bag @ drop (length ?bag) (bag_data_indices b))"
    by (simp add: write_prefix_def)
  from lens ol have w2: "write_prefix ?oob (out_of_bag_data_indices b)
      = Inr (?oob @ drop (length ?oob) (out_of_bag_data_indices b))"
    by (simp add: write_prefix_def)
  let ?b' = "b\<lparr>bag_data_indices := ?bag @ drop (length ?bag) (bag_data_indices b),
              out_of_bag_data_indices := ?oob @ drop (length ?oob) (out_of_bag_data_indices b),
              bag_data_cnt := int (length ?bag),
              out_of_bag_data_cnt := ?n - int (length ?bag)\<rparr>"
  from hb due qb c w1 w2 have r: "Bagging draw it b = Inr ?b'"
    by (simp add: Bagging_def Let_def)
  from lens n0 have oc: "nat (?n - int (length ?bag)) = length ?oob" by linarith
  from ok lens bl ol have ok': "bag_buffers_ok ?b'"
    by (simp add: bag_buffers_ok_def)
  have b1: "bag_indices ?b' = ?bag" by (simp add: bag_indices_def)
  from oc have b2: "out_of_bag_indices ?b' = ?oob" by (simp add: out_of_bag_indices_def)
  from ms have "distinct (?bag @ ?oob)"
    by (metis distinct_upto mset_eq_imp_distinct_iff)
  then have dj: "set ?bag \<inter> set ?oob = {}" by (simp only: distinct_append) 
  have md: "train_metadata ?b' = train_metadata b" by simp
  from r ok' md b1 b2 ms dj show ?thesis
    by (intro exI[of _ ?b'] exI[of _ chosen]) (simp only: b1 b2)
qed

theorem Bagging_whole_queries_witness:
  "bag_buffers_ok
     \<lparr>train_metadata = \<lparr>num_data = 5, num_queries = 2, query_boundaries = [0, 2, 5],
                          weights = [], query_weights = []\<rparr>,
      bagging_fraction = 1 / 2, bagging_freq = 1, has_bag_buffers = True,
      bag_data_indices = [0, 0, 0, 0, 0], out_of_bag_data_indices = [0, 0, 0, 0, 0],
      bag_data_cnt = 0, out_of_bag_data_cnt = 0\<rparr>
   \<and> query_boundaries_ok \<lparr>num_data = 5, num_queries = 2, query_boundaries = [0, 2, 5],
                            weights = [], query_weights = []\<rparr>
   \<and> Bagging (\<lambda>i. if i = 0 then 1 else 0) 0
       \<lparr>train_metadata = \<lparr>num_data = 5, num_queries = 2, query_boundaries = [0, 2, 5],
                            weights = [], query_weights = []\<rparr>,
        bagging_fraction = 1 / 2, bagging_freq = 1, has_bag_buffers = True,
        bag_data_indices = [0, 0, 0, 0, 0], out_of_bag_data_indices = [0, 0, 0, 0, 0],
        bag_data_cnt = 0, out_of_bag_data_cnt = 0\<rparr>
     = Inr \<lparr>train_metadata = \<lparr>num_data = 5, num_queries = 2, query_boundaries = [0, 2, 5],
                                weights = [], query_weights = []\<rparr>,
            bagging_fraction = 1 / 2, bagging_freq = 1, has_bag_buffers = True,
            bag_data_indices = [2, 3, 4, 0, 0], out_of_bag_data_indices = [0, 1, 0, 0, 0],
            bag_data_cnt = 3, out_of_bag_data_cnt = 2\<rparr>
   \<and> (\<exists>b' chosen. Bagging (\<lambda>i. if i = 0 then 1 else 0) 0
       \<lparr>train_metadata = \<lparr>num_data = 5, num_queries = 2, query_boundaries = [0, 2, 5],
                            weights = [], query_weights = []\<rparr>,
        bagging_fraction = 1 / 2, bagging_freq = 1, has_bag_buffers = True,
        bag_data_indices = [0, 0, 0, 0, 0], out_of_bag_data_indices = [0, 0, 0, 0, 0],
        bag_data_cnt = 0, out_of_bag_data_cnt = 0\<rparr> = Inr b'
      \<and> bag_indices b' = concat (map (query_rows [0, 2, 5]) (filter (\<lambda>q. q \<in> chosen) [0..<2]))
      \<and> out_of_bag_indices b'
          = concat (map (query_rows [0, 2, 5]) (filter (\<lambda>q. q \<notin> chosen) [0..<2]))
      \<and> mset (bag_indices b' @ out_of_bag_indices b') = mset [0 .. 4]
      \<and> set (bag_indices b') \<inter> set (out_of_bag_indices b') = {})"
proof -
  let ?md = "\<lparr>num_data = 5, num_queries = 2, query_boundaries = [0, 2, 5],
              weights = [], query_weights = []\<rparr>"
  let ?b = "\<lparr>train_metadata = ?md,
      bagging_fraction = 1 / 2, bagging_freq = 1, has_bag_buffers = True,
      bag_data_indices = [0, 0, 0, 0, 0], out_of_bag_data_indices = [0, 0, 0, 0, 0],
      bag_data_cnt = 0, out_of_bag_data_cnt = 0\<rparr>"
  have ok: "bag_buffers_ok ?b" by (simp add: bag_buffers_ok_def)
  have inv: "query_boundaries_ok ?md" by (simp add: query_boundaries_ok_def)
  have due: "0 mod bagging_freq ?b = 0" by simp
  have qb: "query_boundaries (train_metadata ?b) \<noteq> []" by simp
  have inv': "query_boundaries_ok (train_metadata ?b)" using inv by simp
  have run: "Bagging (\<lambda>i. if i = 0 then 1 else 0) 0 ?b
     = Inr \<lparr>train_metadata = ?md,
            bagging_fraction = 1 / 2, bagging_freq = 1, has_bag_buffers = True,
            bag_data_indices = [2, 3, 4, 0, 0], out_of_bag_data_indices = [0, 1, 0, 0, 0],
            bag_data_cnt = 3, out_of_bag_data_cnt = 2\<rparr>"
    by (simp add: Bagging_def c_trunc_def query_rows_def write_prefix_def upt_rec upto_rec1)
  from Bagging_whole_queries[OF ok due qb inv', of "\<lambda>i. if i = 0 then 1 else 0"]
  obtain b' chosen where
    "Bagging (\<lambda>i. if i = 0 then 1 else 0) 0 ?b = Inr b'"
    "bag_indices b' = concat (map (query_rows [0, 2, 5]) (filter (\<lambda>q. q \<in> chosen) [0..<2]))"
    "out_of_bag_indices b'
       = concat (map (query_rows [0, 2, 5]) (filter (\<lambda>q. q \<notin> chosen) [0..<2]))"
    "mset (bag_indices b' @ out_of_bag_indices b') = mset [0 .. 4]"
    "set (bag_indices b') \<inter> set (out_of_bag_indices b') = {}"
    by auto
  then have ex: "\<exists>b' chosen. Bagging (\<lambda>i. if i = 0 then 1 else 0) 0 ?b = Inr b'
      \<and> bag_indices b' = concat (map (query_rows [0, 2, 5]) (filter (\<lambda>q. q \<in> chosen) [0..<2]))
      \<and> out_of_bag_indices b'
          = concat (map (query_rows [0, 2, 5]) (filter (\<lambda>q. q \<notin> chosen) [0..<2]))
      \<and> mset (bag_indices b' @ out_of_bag_indices b') = mset [0 .. 4]
      \<and> set (bag_indices b') \<inter> set (out_of_bag_indices b') = {}"
    by blast
  from ok inv run ex show ?thesis by (intro conjI)
qed

subsection \<open>The data partition\<close>

lemma inner_size_covers:
  fixes cnt T :: nat
  assumes "0 < T"
  shows "cnt \<le> T * max 1000 ((cnt + T - 1) div T)"
proof -
  have "cnt + T - 1 < T * ((cnt + T - 1) div T) + T"
    using assms by (metis add.commute dividend_less_times_div mult.commute)
  then have "cnt \<le> T * ((cnt + T - 1) div T)" using assms by linarith
  also have "\<dots> \<le> T * max 1000 ((cnt + T - 1) div T)" by simp
  finally show ?thesis .
qed

lemma concat_chunks:
  "concat (map (\<lambda>i. take m (drop (i * m) xs)) [0..<T]) = take (T * m) xs"
proof (induction T)
  case 0
  then show ?case by simp
next
  case (Suc T)
  have "Suc T * m = T * m + m" by simp
  then have "take (Suc T * m) xs = take (T * m) xs @ take m (drop (T * m) xs)"
    by (simp only: take_add)
  with Suc show ?case by simp
qed

lemma thread_rows_chunk:
  "(case thread_rows begin cnt m ind i of None \<Rightarrow> [] | Some rows \<Rightarrow> rows)
     = take m (drop (i * m) (take cnt (drop begin ind)))"
  by (auto simp: thread_rows_def Let_def drop_take min_def add.commute)

lemma parts_mset:
  assumes "\<And>i. i \<in> set js \<Longrightarrow> mset (fst (f i)) + mset (snd (f i)) = mset (g i)"
  shows "mset (concat (map (\<lambda>i. fst (f i)) js)) + mset (concat (map (\<lambda>i. snd (f i)) js))
           = mset (concat (map g js))"
  using assms
proof (induction js)
  case Nil
  then show ?case by simp
next
  case (Cons j js)
  from Cons.prems have a: "mset (fst (f j)) + mset (snd (f j)) = mset (g j)" by simp
  from Cons have b: "mset (concat (map (\<lambda>i. fst (f i)) js))
      + mset (concat (map (\<lambda>i. snd (f i)) js)) = mset (concat (map g js))" by simp
  have "mset (concat (map (\<lambda>i. fst (f i)) (j # js)))
          + mset (concat (map (\<lambda>i. snd (f i)) (j # js)))
        = (mset (fst (f j)) + mset (snd (f j)))
          + (mset (concat (map (\<lambda>i. fst (f i)) js)) + mset (concat (map (\<lambda>i. snd (f i)) js)))"
    by simp
  also have "\<dots> = mset (concat (map g (j # js)))" unfolding a b by simp
  finally show ?case .
qed

lemma thread_split_mset:
  assumes "Bin_Split_ok fb"
  shows "mset (fst (thread_split fb t begin cnt m ind i))
           + mset (snd (thread_split fb t begin cnt m ind i))
         = mset (take m (drop (i * m) (take cnt (drop begin ind))))"
proof (cases "thread_rows begin cnt m ind i")
  case None
  with thread_rows_chunk[of "begin" cnt m ind i] show ?thesis
    by (simp add: thread_split_def)
next
  case (Some rows)
  with thread_rows_chunk[of "begin" cnt m ind i]
  have "rows = take m (drop (i * m) (take cnt (drop begin ind)))" by simp
  with Some assms show ?thesis by (simp add: thread_split_def Bin_Split_ok_def)
qed

lemma last_write_positions:
  "cs \<noteq> [] \<Longrightarrow> last (write_positions p cs) + last cs = p + sum_list cs"
proof (induction cs arbitrary: p)
  case Nil
  then show ?case by simp
next
  case (Cons c cs)
  show ?case
  proof (cases cs)
    case Nil
    then show ?thesis by simp
  next
    case (Cons d ds)
    with Cons.IH[of "p + c"] show ?thesis by simp
  qed
qed

lemma length_write_positions: "length (write_positions p cs) = length cs"
  by (induction cs arbitrary: p) simp_all

lemma memcpy_at_append:
  assumes "length A = pos" "length M = length xs"
  shows "memcpy_at pos xs (A @ M @ B) = Inr (A @ xs @ B)"
  using assms by (simp add: memcpy_at_def)

lemma copy_back_result:
  assumes "length X = sum_list (map (\<lambda>p. length (fst p)) parts)"
    and "length Y = sum_list (map (\<lambda>p. length (snd p)) parts)"
    and "length pre = b + lpos"
    and "length pre + length X + length mid = b + left_cnt + rpos"
  shows "copy_back b left_cnt
           (zip parts (zip (write_positions lpos (map (\<lambda>p. length (fst p)) parts))
                           (write_positions rpos (map (\<lambda>p. length (snd p)) parts))))
           (pre @ X @ mid @ Y @ post)
         = Inr (pre @ concat (map fst parts) @ mid @ concat (map snd parts) @ post)"
  using assms
proof (induction parts arbitrary: X Y pre mid lpos rpos)
  case Nil
  then show ?case by simp
next
  case (Cons p rest)
  obtain l r where p: "p = (l, r)" by (cases p)
  let ?X2 = "drop (length l) X"
  let ?Y2 = "drop (length r) Y"
  from Cons.prems(1) p have lx: "length l \<le> length X" by simp
  from Cons.prems(2) p have ry: "length r \<le> length Y" by simp
  have X: "X = take (length l) X @ ?X2" by simp
  have Y: "Y = take (length r) Y @ ?Y2" by simp
  from lx have tl: "length (take (length l) X) = length l" by simp
  from ry have tr: "length (take (length r) Y) = length r" by simp
  have s1: "(if 0 < length l then memcpy_at (b + lpos) l (pre @ X @ mid @ Y @ post)
             else Inr (pre @ X @ mid @ Y @ post))
            = Inr (pre @ l @ ?X2 @ mid @ Y @ post)"
  proof (cases "0 < length l")
    case True
    have e: "pre @ X @ mid @ Y @ post = pre @ take (length l) X @ (?X2 @ mid @ Y @ post)"
      by (metis X append.assoc)
    from True have "(if 0 < length l then memcpy_at (b + lpos) l (pre @ X @ mid @ Y @ post)
             else Inr (pre @ X @ mid @ Y @ post))
          = memcpy_at (b + lpos) l (pre @ X @ mid @ Y @ post)" by (simp only: if_True)
    also from e have "\<dots> = memcpy_at (b + lpos) l
                                (pre @ take (length l) X @ (?X2 @ mid @ Y @ post))"
      by (rule arg_cong)
    also have "\<dots> = Inr (pre @ l @ (?X2 @ mid @ Y @ post))"
      by (rule memcpy_at_append) (simp_all only: Cons.prems(3) tl)
    finally show ?thesis by (simp only: append_assoc)
  next
    case False
    then show ?thesis by (simp del: append_take_drop_id)
  qed
  have len2: "length ((pre @ l @ ?X2 @ mid)) = b + left_cnt + rpos"
    using Cons.prems(4) lx by simp
  have s2: "(if 0 < length r
             then memcpy_at (b + left_cnt + rpos) r (pre @ l @ ?X2 @ mid @ Y @ post)
             else Inr (pre @ l @ ?X2 @ mid @ Y @ post))
            = Inr (pre @ l @ ?X2 @ mid @ r @ ?Y2 @ post)"
  proof (cases "0 < length r")
    case True
    have e: "pre @ l @ ?X2 @ mid @ Y @ post
               = (pre @ l @ ?X2 @ mid) @ take (length r) Y @ (?Y2 @ post)"
      by (metis Y append.assoc)
    from True have "(if 0 < length r
             then memcpy_at (b + left_cnt + rpos) r (pre @ l @ ?X2 @ mid @ Y @ post)
             else Inr (pre @ l @ ?X2 @ mid @ Y @ post))
          = memcpy_at (b + left_cnt + rpos) r (pre @ l @ ?X2 @ mid @ Y @ post)"
      by (simp only: if_True)
    also from e have "\<dots> = memcpy_at (b + left_cnt + rpos) r
                                ((pre @ l @ ?X2 @ mid) @ take (length r) Y @ (?Y2 @ post))"
      by (rule arg_cong)
    also have "\<dots> = Inr ((pre @ l @ ?X2 @ mid) @ r @ (?Y2 @ post))"
      by (rule memcpy_at_append) (simp_all only: len2 tr)
    finally show ?thesis by (simp only: append_assoc)
  next
    case False
    then show ?thesis by (simp del: append_take_drop_id)
  qed
  have ih: "copy_back b left_cnt
           (zip rest (zip (write_positions (lpos + length l) (map (\<lambda>p. length (fst p)) rest))
                          (write_positions (rpos + length r) (map (\<lambda>p. length (snd p)) rest))))
           ((pre @ l) @ ?X2 @ (mid @ r) @ ?Y2 @ post)
         = Inr ((pre @ l) @ concat (map fst rest) @ (mid @ r) @ concat (map snd rest) @ post)"
  proof (rule Cons.IH)
    show "length ?X2 = sum_list (map (\<lambda>p. length (fst p)) rest)"
      using Cons.prems(1) p by simp
    show "length ?Y2 = sum_list (map (\<lambda>p. length (snd p)) rest)"
      using Cons.prems(2) p by simp
    show "length (pre @ l) = b + (lpos + length l)"
      using Cons.prems(3) by simp
    show "length (pre @ l) + length ?X2 + length (mid @ r) = b + left_cnt + (rpos + length r)"
      using Cons.prems(4) lx by simp
  qed
  have "copy_back b left_cnt
           (zip (p # rest) (zip (write_positions lpos (map (\<lambda>p. length (fst p)) (p # rest)))
                           (write_positions rpos (map (\<lambda>p. length (snd p)) (p # rest)))))
           (pre @ X @ mid @ Y @ post)
        = copy_back b left_cnt
           (zip rest (zip (write_positions (lpos + length l) (map (\<lambda>p. length (fst p)) rest))
                          (write_positions (rpos + length r) (map (\<lambda>p. length (snd p)) rest))))
           (pre @ l @ ?X2 @ mid @ r @ ?Y2 @ post)"
    by (simp only: p list.map write_positions.simps zip_Cons_Cons copy_back.simps
          fst_conv snd_conv s1 s2 sum.case)
  also have "\<dots> = Inr ((pre @ l) @ concat (map fst rest) @ (mid @ r)
                         @ concat (map snd rest) @ post)"
    using ih by simp
  also have "\<dots> = Inr (pre @ concat (map fst (p # rest)) @ mid
                         @ concat (map snd (p # rest)) @ post)"
    
    by (simp add: p)
  finally show ?case .
qed

lemma copy_back_empty:
  assumes "\<forall>x \<in> set ps. fst x = ([], [])"
  shows "copy_back b left_cnt ps ind = Inr ind"
  using assms
proof (induction ps)
  case Nil
  then show ?case by simp
next
  case (Cons x ps)
  obtain l r lpos rpos where x: "x = ((l, r), lpos, rpos)" by (cases x) auto
  with Cons.prems have "l = []" "r = []" by simp_all
  with Cons x show ?case by simp
qed

lemma take_drop_lengths:
  "a + c = length seg \<Longrightarrow> length (take a seg) = a \<and> length (drop a seg) = c"
  by auto

lemma Split_result:
  assumes T: "0 < num_threads dp"
    and l: "leaf < length (leaf_begin dp)" "leaf < length (leaf_count dp)"
    and r: "right_leaf < length (leaf_begin dp)" "right_leaf < length (leaf_count dp)"
    and bnd: "0 < leaf_count dp ! leaf
              \<Longrightarrow> leaf_begin dp ! leaf + leaf_count dp ! leaf \<le> length (indices dp)"
    and fb: "Bin_Split_ok fb"
  shows "\<exists>ls rs. mset ls + mset rs = mset (GetIndexOnLeaf dp leaf)
           \<and> DataPartition_Split leaf fb t right_leaf dp
               = Inr (dp\<lparr>indices := take (leaf_begin dp ! leaf) (indices dp) @ ls @ rs
                                     @ drop (leaf_begin dp ! leaf + leaf_count dp ! leaf)
                                         (indices dp),
                         leaf_count := (leaf_count dp)[leaf := length ls, right_leaf := length rs],
                         leaf_begin := (leaf_begin dp)
                                         [right_leaf := length ls + leaf_begin dp ! leaf]\<rparr>)"
proof -
  let ?b = "leaf_begin dp ! leaf"
  let ?cnt = "leaf_count dp ! leaf"
  let ?T = "num_threads dp"
  let ?m = "max 1000 ((?cnt + ?T - 1) div ?T)"
  let ?ind = "indices dp"
  let ?seg = "take ?cnt (drop ?b ?ind)"
  let ?f = "thread_split fb t ?b ?cnt ?m ?ind"
  let ?parts = "map ?f [0..<?T]"
  let ?ls = "concat (map fst ?parts)"
  let ?rs = "concat (map snd ?parts)"
  let ?lc = "map (\<lambda>p. length (fst p)) ?parts"
  let ?rc = "map (\<lambda>p. length (snd p)) ?parts"
  have "mset (concat (map (\<lambda>i. fst (?f i)) [0..<?T]))
          + mset (concat (map (\<lambda>i. snd (?f i)) [0..<?T]))
        = mset (concat (map (\<lambda>i. take ?m (drop (i * ?m) ?seg)) [0..<?T]))"
    by (rule parts_mset) (rule thread_split_mset[OF fb])
  also have "\<dots> = mset (take (?T * ?m) ?seg)" by (simp only: concat_chunks)
  also have "take (?T * ?m) ?seg = ?seg"
    using inner_size_covers[OF T, of ?cnt] by simp
  finally have ms: "mset ?ls + mset ?rs = mset ?seg" by (simp add: comp_def)
  then have "size (mset ?ls + mset ?rs) = size (mset ?seg)" by simp
  then have len: "length ?ls + length ?rs = length ?seg" by simp
  from T have ne: "?lc \<noteq> []" by simp
  have sl: "sum_list ?lc = length ?ls" by (simp add: length_concat comp_def)
  have sr: "sum_list ?rc = length ?rs" by (simp add: length_concat comp_def)
  from last_write_positions[OF ne, of 0] sl
  have lcnt: "last (write_positions 0 ?lc) + last ?lc = length ?ls" by simp
  have cb: "copy_back ?b (length ?ls)
              (zip ?parts (zip (write_positions 0 ?lc) (write_positions 0 ?rc))) ?ind
            = Inr (take ?b ?ind @ ?ls @ ?rs @ drop (?b + ?cnt) ?ind)"
  proof (cases "0 < ?cnt")
    case True
    from bnd[OF True] have bound: "?b + ?cnt \<le> length ?ind" .
    then have seglen: "length ?seg = ?cnt" by simp
    let ?X = "take (length ?ls) ?seg"
    let ?Y = "drop (length ?ls) ?seg"
    have dd: "drop (?b + ?cnt) ?ind = drop ?cnt (drop ?b ?ind)" by (simp add: add.commute)
    note lX = take_drop_lengths[OF len, THEN conjunct1]
    note lY = take_drop_lengths[OF len, THEN conjunct2]
    from bound have lp: "length (take ?b ?ind) = ?b" by simp
    have split: "take ?b ?ind @ ?X @ [] @ ?Y @ drop (?b + ?cnt) ?ind = ?ind"
    proof -
      have "take ?b ?ind @ ?X @ [] @ ?Y @ drop (?b + ?cnt) ?ind
              = take ?b ?ind @ (?X @ ?Y) @ drop ?cnt (drop ?b ?ind)"
        by (simp only: dd append_Nil append_assoc)
      also have "\<dots> = take ?b ?ind @ ?seg @ drop ?cnt (drop ?b ?ind)"
        by (simp only: append_take_drop_id)
      also have "\<dots> = ?ind" by (simp only: append_take_drop_id)
      finally show ?thesis .
    qed
    have "copy_back ?b (length ?ls)
              (zip ?parts (zip (write_positions 0 ?lc) (write_positions 0 ?rc)))
              (take ?b ?ind @ ?X @ [] @ ?Y @ drop (?b + ?cnt) ?ind)
            = Inr (take ?b ?ind @ concat (map fst ?parts) @ [] @ concat (map snd ?parts)
                     @ drop (?b + ?cnt) ?ind)"
    proof (rule copy_back_result)
      show "length ?X = sum_list ?lc" unfolding sl by (rule lX)
      show "length ?Y = sum_list ?rc" unfolding sr by (rule lY)
      show "length (take ?b ?ind) = ?b + 0" unfolding lp by simp
      show "length (take ?b ?ind) + length ?X + length [] = ?b + length ?ls + 0"
        unfolding lp lX by simp
    qed
    from this[unfolded split] show ?thesis by (simp only: append_Nil)
  next
    case False
    then have "?seg = []" by simp
    with ms have e: "?ls = []" "?rs = []" by simp_all
    then have "\<forall>p \<in> set ?parts. p = ([], [])"
      by (auto simp: prod_eq_iff)
    then have "\<forall>x \<in> set (zip ?parts (zip (write_positions 0 ?lc) (write_positions 0 ?rc))).
                 fst x = ([], [])"
      by (metis prod.collapse set_zip_leftD)
    from copy_back_empty[OF this]
    have "copy_back ?b (length ?ls)
              (zip ?parts (zip (write_positions 0 ?lc) (write_positions 0 ?rc))) ?ind
            = Inr ?ind" .
    moreover from False have c0: "?cnt = 0" by simp
    have "take ?b ?ind @ ?ls @ ?rs @ drop (?b + ?cnt) ?ind = ?ind"
      unfolding e by (simp add: c0)
    ultimately show ?thesis by (rule ssubst[where P = "\<lambda>z. _ = Inr z", rotated])
  qed
  have rcnt': "?cnt - length ?ls = length ?rs"
  proof (cases "0 < ?cnt")
    case True
    from bnd[OF True] have "length ?seg = ?cnt" by simp
    with len show ?thesis by linarith
  next
    case False
    then have "?seg = []" by simp
    with ms have "?ls = []" "?rs = []" by simp_all
    with False show ?thesis by simp
  qed
  have gi: "GetIndexOnLeaf dp leaf = ?seg" by (simp add: GetIndexOnLeaf_def)
  have "DataPartition_Split leaf fb t right_leaf dp
          = Inr (dp\<lparr>indices := take ?b ?ind @ ?ls @ ?rs @ drop (?b + ?cnt) ?ind,
                    leaf_count := (leaf_count dp)[leaf := length ?ls, right_leaf := length ?rs],
                    leaf_begin := (leaf_begin dp)[right_leaf := length ?ls + ?b]\<rparr>)"
  proof -
    from l have c1: "(leaf < length (leaf_begin dp) \<and> leaf < length (leaf_count dp)) = True"
      by simp
    from T have c2: "(num_threads dp = 0) = False" by simp
    from bnd have c3: "(0 < ?cnt \<and> length ?ind < ?b + ?cnt) = False" by auto
    from r have c4: "(right_leaf < length (leaf_begin dp)
                      \<and> right_leaf < length (leaf_count dp)) = True"
      by simp
    show ?thesis
      by (simp only: DataPartition_Split_def Let_def c1 c2 c3 c4 not_True_eq_False
            not_False_eq_True if_False if_True lcnt cb rcnt' sum.case)
  qed
  with ms gi show ?thesis by metis
qed

lemma partition_okD:
  assumes "partition_ok N rows0 dp"
  shows "0 < num_threads dp"
    and "length (leaf_begin dp) = dp_num_leaves dp"
    and "length (leaf_count dp) = dp_num_leaves dp"
    and "N \<le> length (indices dp)"
    and "sum_list (leaf_count dp) = N"
    and "mset (take N (indices dp)) = mset rows0"
    and "\<And>i. i < dp_num_leaves dp \<Longrightarrow> 0 < leaf_count dp ! i
           \<Longrightarrow> leaf_begin dp ! i + leaf_count dp ! i \<le> N"
    and "\<And>p. p < N \<Longrightarrow> \<exists>!i. i < dp_num_leaves dp \<and> in_leaf dp i p"
  using assms by (simp_all add: partition_ok_def)

lemma sum_list_update2:
  fixes xs :: "nat list"
  assumes "i < length xs" "j < length xs" "i \<noteq> j" "xs ! j = 0" "a + c = xs ! i"
  shows "sum_list (xs[i := a, j := c]) = sum_list xs"
proof -
  from assms(1) have "xs ! i \<le> sum_list xs" by (simp add: member_le_sum_list)
  moreover from assms have "sum_list (xs[i := a, j := c]) = sum_list (xs[i := a]) + c - 0"
    by (simp add: sum_list_update)
  moreover from assms have "sum_list (xs[i := a]) = sum_list xs + a - xs ! i"
    by (simp add: sum_list_update)
  ultimately show ?thesis using assms(5) by linarith
qed

lemma take_replace_mset:
  assumes "mset M = mset M'" "length A + length M \<le> N"
  shows "mset (take N (A @ M @ B)) = mset (take N (A @ M' @ B))"
proof -
  from assms(1) have "length M = length M'" by (rule mset_eq_length)
  with assms show ?thesis by simp
qed

lemma Split_step:
  assumes inv: "partition_ok N rows0 dp"
    and l: "leaf < dp_num_leaves dp"
    and r: "right_leaf < dp_num_leaves dp"
    and empty: "leaf_count dp ! right_leaf = 0"
    and fb: "Bin_Split_ok fb"
  shows "\<exists>dp'. DataPartition_Split leaf fb t right_leaf dp = Inr dp'
           \<and> partition_ok N rows0 dp'
           \<and> split_children dp leaf right_leaf dp'
           \<and> dp_num_leaves dp' = dp_num_leaves dp"
proof -
  note d = partition_okD[OF inv]
  let ?b = "leaf_begin dp ! leaf"
  let ?cnt = "leaf_count dp ! leaf"
  let ?ind = "indices dp"
  let ?L = "dp_num_leaves dp"
  let ?seg = "take ?cnt (drop ?b ?ind)"
  have bnd: "?b + ?cnt \<le> length ?ind" if "0 < ?cnt"
    using d(7)[OF l that] d(4) by simp
  from l r d(2,3) have ll: "leaf < length (leaf_begin dp)" "leaf < length (leaf_count dp)"
    and rl: "right_leaf < length (leaf_begin dp)" "right_leaf < length (leaf_count dp)"
    by simp_all
  from Split_result[OF d(1) ll rl bnd fb, of t] obtain ls rs where
    ms: "mset ls + mset rs = mset (GetIndexOnLeaf dp leaf)"
    and eq: "DataPartition_Split leaf fb t right_leaf dp
               = Inr (dp\<lparr>indices := take ?b ?ind @ ls @ rs @ drop (?b + ?cnt) ?ind,
                         leaf_count := (leaf_count dp)[leaf := length ls, right_leaf := length rs],
                         leaf_begin := (leaf_begin dp)[right_leaf := length ls + ?b]\<rparr>)"
    by blast
  define dp' where "dp' = dp\<lparr>indices := take ?b ?ind @ ls @ rs @ drop (?b + ?cnt) ?ind,
                         leaf_count := (leaf_count dp)[leaf := length ls, right_leaf := length rs],
                         leaf_begin := (leaf_begin dp)[right_leaf := length ls + ?b]\<rparr>"
  have gi: "GetIndexOnLeaf dp leaf = ?seg" by (simp add: GetIndexOnLeaf_def)
  have seglen: "length ?seg = ?cnt"
  proof (cases "0 < ?cnt")
    case True
    from bnd[OF True] show ?thesis by simp
  next
    case False
    then show ?thesis by simp
  qed
  from ms gi have "size (mset ls + mset rs) = size (mset ?seg)" by simp
  with seglen have lr: "length ls + length rs = ?cnt" by simp
  have ind': "indices dp' = take ?b ?ind @ ls @ rs @ drop (?b + ?cnt) ?ind"
    and lc': "leaf_count dp' = (leaf_count dp)[leaf := length ls, right_leaf := length rs]"
    and lb': "leaf_begin dp' = (leaf_begin dp)[right_leaf := length ls + ?b]"
    and L': "dp_num_leaves dp' = ?L" and T': "num_threads dp' = num_threads dp"
    by (simp_all add: dp'_def)
  show ?thesis
  proof (cases "leaf = right_leaf")
    case True
    with empty have c0: "?cnt = 0" by simp
    with lr have e: "ls = []" "rs = []" by simp_all
    from empty have "(leaf_count dp)[right_leaf := 0] = leaf_count dp"
      by (metis list_update_id)
    with True c0 e have same: "dp' = dp" by (simp add: dp'_def)
    have "split_children dp leaf right_leaf dp"
      using True c0 by (simp add: split_children_def GetIndexOnLeaf_def)
    with eq inv same show ?thesis unfolding dp'_def[symmetric] by simp
  next
    case False
    from False ll rl have n1: "leaf_count dp' ! leaf = length ls"
      and n2: "leaf_count dp' ! right_leaf = length rs"
      and n3: "leaf_begin dp' ! leaf = ?b"
      and n4: "leaf_begin dp' ! right_leaf = length ls + ?b"
      by (simp_all add: lc' lb')
    have n5: "leaf_count dp' ! j = leaf_count dp ! j" "leaf_begin dp' ! j = leaf_begin dp ! j"
      if "j \<noteq> leaf" "j \<noteq> right_leaf" for j
      using that by (simp_all add: lc' lb')
    have i1: "in_leaf dp' leaf p \<longleftrightarrow> ?b \<le> p \<and> p < ?b + length ls" for p
      by (simp add: in_leaf_def n1 n3)
    have i2: "in_leaf dp' right_leaf p \<longleftrightarrow> ?b + length ls \<le> p \<and> p < ?b + ?cnt" for p
      using lr by (auto simp: in_leaf_def n2 n4)
    have i3: "in_leaf dp' j p \<longleftrightarrow> in_leaf dp j p" if "j \<noteq> leaf" "j \<noteq> right_leaf" for j p
      using n5[OF that] by (simp add: in_leaf_def)
    have i4: "\<not> in_leaf dp right_leaf p" for p
      using empty by (simp add: in_leaf_def)
    have i5: "in_leaf dp leaf p \<longleftrightarrow> ?b \<le> p \<and> p < ?b + ?cnt" for p
      by (simp add: in_leaf_def)
    have len': "length (indices dp') = length ?ind"
    proof (cases "0 < ?cnt")
      case True
      from bnd[OF True] lr show ?thesis by (simp add: ind')
    next
      case False
      with lr show ?thesis by (simp add: ind')
    qed
    have ms': "mset (take N (indices dp')) = mset rows0"
    proof (cases "0 < ?cnt")
      case True
      from bnd[OF True] have lb: "length (take ?b ?ind) = ?b" by simp
      from d(7)[OF l True] seglen lb
      have le: "length (take ?b ?ind) + length ?seg \<le> N" by simp
      from ms gi have m2: "mset ?seg = mset (ls @ rs)" by simp
      have "?ind = take ?b ?ind @ ?seg @ drop ?cnt (drop ?b ?ind)"
        by (simp only: append_take_drop_id)
      also have "drop ?cnt (drop ?b ?ind) = drop (?b + ?cnt) ?ind" by (simp add: add.commute)
      finally have "take N ?ind = take N (take ?b ?ind @ ?seg @ drop (?b + ?cnt) ?ind)"
        by (rule arg_cong)
      then have "mset (take N ?ind) = mset (take N (take ?b ?ind @ ?seg @ drop (?b + ?cnt) ?ind))"
        by (rule arg_cong)
      also have "\<dots> = mset (take N (take ?b ?ind @ (ls @ rs) @ drop (?b + ?cnt) ?ind))"
        by (rule take_replace_mset[OF m2 le])
      finally show ?thesis using d(6) by (simp add: ind')
    next
      case False
      with lr have "ls = []" "rs = []" by simp_all
      with False d(6) show ?thesis by (simp add: ind')
    qed
    have sum': "sum_list (leaf_count dp') = N"
      unfolding lc' using sum_list_update2[OF ll(2) rl(2) False empty lr] d(5) by simp
    have rng': "leaf_begin dp' ! i + leaf_count dp' ! i \<le> N"
      if "i < ?L" "0 < leaf_count dp' ! i" for i
    proof -
      consider "i = leaf" | "i = right_leaf" | "i \<noteq> leaf" "i \<noteq> right_leaf" by blast
      then show ?thesis
      proof cases
        case 1
        from that(2) 1 n1 have "0 < length ls" by simp
        with lr have "0 < ?cnt" by linarith
        from d(7)[OF l this] 1 n1 n3 lr show ?thesis by simp
      next
        case 2
        from that(2) 2 n2 have "0 < length rs" by simp
        with lr have "0 < ?cnt" by linarith
        from d(7)[OF l this] 2 n2 n4 lr show ?thesis by simp
      next
        case 3
        from n5[OF 3] that d(7)[of i] show ?thesis by simp
      qed
    qed
    have uniq': "\<exists>!i. i < ?L \<and> in_leaf dp' i p" if "p < N" for p
    proof -
      from d(8)[OF that] obtain i0 where
        i0: "i0 < ?L" "in_leaf dp i0 p" and u: "\<And>j. j < ?L \<Longrightarrow> in_leaf dp j p \<Longrightarrow> j = i0"
        by blast
      have old: "in_leaf dp (if j = right_leaf then leaf else j) p" if "in_leaf dp' j p" for j
      proof -
        consider "j = leaf" | "j = right_leaf" | "j \<noteq> leaf" "j \<noteq> right_leaf" by blast
        then show ?thesis
        proof cases
          case 1
          with that i1[of p] i5[of p] False lr show ?thesis by simp
        next
          case 2
          with that i2[of p] i5[of p] show ?thesis by simp
        next
          case 3
          with that i3[OF 3, of p] show ?thesis by simp
        qed
      qed
      have ex: "\<exists>i. i < ?L \<and> in_leaf dp' i p"
      proof (cases "i0 = leaf")
        case True
        with i0(2) i5[of p] have "?b \<le> p" "p < ?b + ?cnt" by simp_all
        then have "in_leaf dp' leaf p \<or> in_leaf dp' right_leaf p"
          using i1[of p] i2[of p] by linarith
        with l r show ?thesis by blast
      next
        case nl: False
        from i0(2) i4[of p] have "i0 \<noteq> right_leaf" by blast
        from i3[OF nl this, of p] i0 show ?thesis by blast
      qed
      have un: "i = j" if a: "i < ?L" "in_leaf dp' i p" and b: "j < ?L" "in_leaf dp' j p" for i j
      proof -
        let ?f = "\<lambda>j. if j = right_leaf then leaf else j"
        from a l have "?f i < ?L" by simp
        from u[OF this old[OF a(2)]] have fi: "?f i = i0" .
        from b l have "?f j < ?L" by simp
        from u[OF this old[OF b(2)]] have fj: "?f j = i0" .
        show ?thesis
        proof (cases "i0 = leaf")
          case True
          with fi fj have ij: "i = leaf \<or> i = right_leaf" "j = leaf \<or> j = right_leaf"
            by (auto split: if_splits)
          from i1[of p] i2[of p] have "\<not> (in_leaf dp' leaf p \<and> in_leaf dp' right_leaf p)"
            by simp
          with ij a(2) b(2) show ?thesis by blast
        next
          case nl: False
          with fi fj show ?thesis by (auto split: if_splits)
        qed
      qed
      from ex un show ?thesis by blast
    qed
    have ok': "partition_ok N rows0 dp'"
      unfolding partition_ok_def
      using d(1-4) len' ms' sum' rng' uniq' by (simp add: T' L' lc' lb')
    have g1: "GetIndexOnLeaf dp' leaf = ls"
    proof (cases "0 < ?cnt")
      case True
      from bnd[OF True] have "length (take ?b ?ind) = ?b" by simp
      then have "drop ?b (indices dp') = ls @ rs @ drop (?b + ?cnt) ?ind"
        unfolding ind' by (metis append_eq_conv_conj)
      then show ?thesis by (simp add: GetIndexOnLeaf_def n1 n3)
    next
      case False
      with lr have "ls = []" by simp
      then show ?thesis by (simp add: GetIndexOnLeaf_def n1)
    qed
    have g2: "GetIndexOnLeaf dp' right_leaf = rs"
    proof (cases "0 < ?cnt")
      case True
      from bnd[OF True] have "length (take ?b ?ind @ ls) = length ls + ?b" by simp
      moreover have "indices dp' = (take ?b ?ind @ ls) @ rs @ drop (?b + ?cnt) ?ind"
        unfolding ind' by simp
      ultimately have "drop (length ls + ?b) (indices dp') = rs @ drop (?b + ?cnt) ?ind"
        by (metis append_eq_conv_conj)
      then show ?thesis by (simp add: GetIndexOnLeaf_def n2 n4)
    next
      case False
      with lr have "rs = []" by simp
      then show ?thesis by (simp add: GetIndexOnLeaf_def n2)
    qed
    have ch: "split_children dp leaf right_leaf dp'"
      unfolding split_children_def
      using n1 n2 n3 n4 n5 lr ms g1 g2 by (simp add: add.commute)
    from eq ok' ch L' show ?thesis unfolding dp'_def[symmetric] by blast
  qed
qed

lemma Bin_Split_ok_Bin_Split: "Bin_Split_ok (Bin_Split bins)"
  by (simp add: Bin_Split_ok_def Bin_Split_def)

lemma partition_ok_initial:
  assumes "0 < num_threads dp" "0 < dp_num_leaves dp"
    and "length (leaf_begin dp) = dp_num_leaves dp" "leaf_begin dp ! 0 = 0"
    and lc: "leaf_count dp = (replicate (dp_num_leaves dp) 0)[0 := N]"
    and "N \<le> length (indices dp)" "mset (take N (indices dp)) = mset rows0"
  shows "partition_ok N rows0 dp"
proof -
  let ?L = "dp_num_leaves dp"
  from lc have len: "length (leaf_count dp) = ?L" by simp
  from lc assms(2) have c0: "leaf_count dp ! 0 = N" by simp
  from lc have cj: "leaf_count dp ! j = 0" if "j \<noteq> 0" "j < ?L" for j using that by simp
  have "sum_list (leaf_count dp) = sum_list (replicate ?L (0::nat)) + N - replicate ?L 0 ! 0"
    unfolding lc using assms(2) by (simp add: sum_list_update)
  with assms(2) have sum: "sum_list (leaf_count dp) = N" by (simp add: sum_list_replicate)
  have rng: "leaf_begin dp ! i + leaf_count dp ! i \<le> N" if "i < ?L" "0 < leaf_count dp ! i" for i
  proof (cases "i = 0")
    case True
    with c0 assms(4) show ?thesis by simp
  next
    case False
    from cj[OF False that(1)] that(2) show ?thesis by simp
  qed
  have uniq: "\<exists>!i. i < ?L \<and> in_leaf dp i p" if "p < N" for p
  proof (rule ex1I[of _ 0])
    from that assms(2,4) c0 show "0 < ?L \<and> in_leaf dp 0 p" by (simp add: in_leaf_def)
  next
    fix j assume j: "j < ?L \<and> in_leaf dp j p"
    show "j = 0"
    proof (rule ccontr)
      assume n0: "j \<noteq> 0"
      from j have "j < ?L" by simp
      from cj[OF n0 this] j show False by (auto simp: in_leaf_def)
    qed
  qed
  from assms(1,3,6,7) len sum rng uniq show ?thesis
    unfolding partition_ok_def by blast
qed

lemma Init_ok:
  assumes "allocated dp0"
  shows "\<exists>dp. DataPartition_Init dp0 = Inr dp
           \<and> partition_ok (length (initial_rows dp0)) (initial_rows dp0) dp
           \<and> dp_num_leaves dp = dp_num_leaves dp0
           \<and> leaf_begin dp ! 0 = 0
           \<and> leaf_count dp = (replicate (dp_num_leaves dp0) 0)[0 := length (initial_rows dp0)]
           \<and> GetIndexOnLeaf dp 0 = initial_rows dp0"
proof -
  let ?L = "dp_num_leaves dp0"
  from assms have a: "0 < num_threads dp0" "0 < ?L" "length (leaf_begin dp0) = ?L"
    "length (leaf_count dp0) = ?L" "length (indices dp0) = dp_num_data dp0"
    by (simp_all add: allocated_def)
  from a have ne: "leaf_begin dp0 \<noteq> []" "leaf_count dp0 \<noteq> []" by auto
  show ?thesis
  proof (cases "used_data_indices dp0")
    case None
    let ?n = "dp_num_data dp0"
    define dp where "dp = dp0\<lparr>leaf_count := (replicate ?L 0)[0 := ?n],
                               leaf_begin := (leaf_begin dp0)[0 := 0],
                               indices := [0..<?n] @ drop ?n (indices dp0)\<rparr>"
    from None a ne have r: "DataPartition_Init dp0 = Inr dp"
      by (simp add: DataPartition_Init_def dp_def)
    from None have ir: "initial_rows dp0 = [0..<?n]" by (simp add: initial_rows_def)
    have "partition_ok ?n [0..<?n] dp"
      using a by (intro partition_ok_initial) (simp_all add: dp_def)
    moreover from a have "GetIndexOnLeaf dp 0 = [0..<?n]"
      by (simp add: GetIndexOnLeaf_def dp_def)
    moreover from a have "leaf_begin dp ! 0 = 0" by (simp add: dp_def)
    ultimately show ?thesis using r ir by (simp add: dp_def)
  next
    case (Some used)
    let ?n = "used_data_count dp0"
    from assms Some have u: "?n \<le> length used" "?n \<le> dp_num_data dp0"
      by (simp_all add: allocated_def)
    define dp where "dp = dp0\<lparr>leaf_count := (replicate ?L 0)[0 := ?n],
                               leaf_begin := (leaf_begin dp0)[0 := 0],
                               indices := take ?n used @ drop ?n (indices dp0)\<rparr>"
    from Some a ne u have r: "DataPartition_Init dp0 = Inr dp"
      by (simp add: DataPartition_Init_def dp_def)
    from Some have ir: "initial_rows dp0 = take ?n used" by (simp add: initial_rows_def)
    from u have ln: "length (take ?n used) = ?n" by simp
    have "partition_ok ?n (take ?n used) dp"
      using a u by (intro partition_ok_initial) (simp_all add: dp_def)
    moreover from a u have "GetIndexOnLeaf dp 0 = take ?n used"
      by (simp add: GetIndexOnLeaf_def dp_def)
    moreover from a have "leaf_begin dp ! 0 = 0" by (simp add: dp_def)
    ultimately show ?thesis using r ir ln by (simp add: dp_def)
  qed
qed

lemma distinct_initial_rows: "allocated dp \<Longrightarrow> distinct (initial_rows dp)"
  by (auto simp: allocated_def initial_rows_def split: option.splits)

lemma in_GetIndexOnLeaf:
  assumes inv: "partition_ok N rows0 dp" and i: "i < dp_num_leaves dp"
  shows "r \<in> set (GetIndexOnLeaf dp i) \<longleftrightarrow> (\<exists>q. in_leaf dp i q \<and> indices dp ! q = r)"
proof (cases "0 < leaf_count dp ! i")
  case False
  then show ?thesis by (simp add: GetIndexOnLeaf_def in_leaf_def)
next
  case True
  note d = partition_okD[OF inv]
  let ?b = "leaf_begin dp ! i"
  let ?c = "leaf_count dp ! i"
  from d(7)[OF i True] d(4) have bound: "?b + ?c \<le> length (indices dp)" by simp
  then have len: "length (GetIndexOnLeaf dp i) = ?c" by (simp add: GetIndexOnLeaf_def)
  have nth: "GetIndexOnLeaf dp i ! k = indices dp ! (?b + k)" if "k < ?c" for k
    using that bound by (simp add: GetIndexOnLeaf_def)
  show ?thesis
  proof
    assume "r \<in> set (GetIndexOnLeaf dp i)"
    then obtain k where k: "k < ?c" "GetIndexOnLeaf dp i ! k = r"
      unfolding in_set_conv_nth len by blast
    with nth[OF k(1)] have "in_leaf dp i (?b + k) \<and> indices dp ! (?b + k) = r"
      by (simp add: in_leaf_def)
    then show "\<exists>q. in_leaf dp i q \<and> indices dp ! q = r" by blast
  next
    assume "\<exists>q. in_leaf dp i q \<and> indices dp ! q = r"
    then obtain q where q: "?b \<le> q" "q < ?b + ?c" "indices dp ! q = r"
      by (auto simp: in_leaf_def)
    then have "q - ?b < ?c" by simp
    from nth[OF this] q have "GetIndexOnLeaf dp i ! (q - ?b) = r" by simp
    moreover from \<open>q - ?b < ?c\<close> len have "q - ?b < length (GetIndexOnLeaf dp i)"
      by simp
    ultimately show "r \<in> set (GetIndexOnLeaf dp i)"
      unfolding in_set_conv_nth by blast
  qed
qed

lemma rows_in_one_leaf:
  assumes inv: "partition_ok N rows0 dp" and dist: "distinct rows0" and r: "r \<in> set rows0"
  shows "\<exists>!i. i < dp_num_leaves dp \<and> r \<in> set (GetIndexOnLeaf dp i)"
proof -
  note d = partition_okD[OF inv]
  let ?ind = "indices dp"
  from d(6) dist have dt: "distinct (take N ?ind)" by (metis mset_eq_imp_distinct_iff)
  from d(6) r have "r \<in> set (take N ?ind)" by (metis mset_eq_setD)
  with d(4) obtain p where p: "p < N" "?ind ! p = r"
    unfolding in_set_conv_nth by auto
  have key: "r \<in> set (GetIndexOnLeaf dp i) \<longleftrightarrow> in_leaf dp i p" if i: "i < dp_num_leaves dp" for i
  proof
    assume "r \<in> set (GetIndexOnLeaf dp i)"
    with in_GetIndexOnLeaf[OF inv i, of r] obtain q where
      q: "in_leaf dp i q" "?ind ! q = r" by blast
    then have "0 < leaf_count dp ! i" by (simp add: in_leaf_def)
    from d(7)[OF i this] q(1) have qN: "q < N" by (simp add: in_leaf_def)
    from p qN q(2) d(4) have "take N ?ind ! q = take N ?ind ! p" by simp
    moreover from d(4) have "length (take N ?ind) = N" by simp
    ultimately have "q = p" using dt p(1) qN by (metis nth_eq_iff_index_eq)
    with q(1) show "in_leaf dp i p" by simp
  next
    assume "in_leaf dp i p"
    with p(2) in_GetIndexOnLeaf[OF inv i, of r] show "r \<in> set (GetIndexOnLeaf dp i)" by blast
  qed
  from d(8)[OF p(1)] obtain i0 where
    i0: "i0 < dp_num_leaves dp" "in_leaf dp i0 p"
    and u: "\<And>j. j < dp_num_leaves dp \<Longrightarrow> in_leaf dp j p \<Longrightarrow> j = i0"
    by blast
  show ?thesis
  proof (rule ex1I[of _ i0])
    from i0 key[OF i0(1)] show "i0 < dp_num_leaves dp \<and> r \<in> set (GetIndexOnLeaf dp i0)" by simp
  next
    fix j assume j: "j < dp_num_leaves dp \<and> r \<in> set (GetIndexOnLeaf dp j)"
    with key[of j] have "in_leaf dp j p" by simp
    with j u show "j = i0" by simp
  qed
qed

lemma Splits_prefix:
  assumes "partition_ok N rows0 dp" "calls_ok calls (Inr dp)"
    and "\<forall>c \<in> set calls. Bin_Split_ok (fst (snd c))" "k \<le> length calls"
  shows "\<exists>dp'. Splits (take k calls) dp = Inr dp' \<and> partition_ok N rows0 dp'
           \<and> dp_num_leaves dp' = dp_num_leaves dp
           \<and> (k < length calls \<longrightarrow>
                (case calls ! k of (leaf, feature_bins, threshold, right_leaf) \<Rightarrow>
                   \<exists>dp''. DataPartition_Split leaf feature_bins threshold right_leaf dp' = Inr dp''
                          \<and> split_children dp' leaf right_leaf dp''))"
  using assms
proof (induction calls arbitrary: dp k)
  case Nil
  then show ?case by simp
next
  case (Cons c rest)
  obtain leaf fb t right_leaf where c: "c = (leaf, fb, t, right_leaf)" by (cases c) auto
  from Cons.prems(2) c have l: "leaf < dp_num_leaves dp" and r: "right_leaf < dp_num_leaves dp"
    and e: "leaf_count dp ! right_leaf = 0"
    and rest: "calls_ok rest (DataPartition_Split leaf fb t right_leaf dp)"
    by simp_all
  from Cons.prems(3) c have fb: "Bin_Split_ok fb" and fbs: "\<forall>c \<in> set rest. Bin_Split_ok (fst (snd c))"
    by simp_all
  from Split_step[OF Cons.prems(1) l r e fb, of t] obtain dp1 where
    s: "DataPartition_Split leaf fb t right_leaf dp = Inr dp1"
    and ok1: "partition_ok N rows0 dp1"
    and ch: "split_children dp leaf right_leaf dp1"
    and L1: "dp_num_leaves dp1 = dp_num_leaves dp"
    by blast
  show ?case
  proof (cases k)
    case 0
    with Cons.prems(1) s ch c show ?thesis by simp
  next
    case (Suc k')
    with Cons.prems(4) have k': "k' \<le> length rest" by simp
    from rest s have "calls_ok rest (Inr dp1)" by simp
    from Cons.IH[OF ok1 this fbs k'] L1 Suc s c show ?thesis by simp
  qed
qed

lemma DataPartition_new_allocated:
  "0 < num_leafs \<Longrightarrow> 0 < threads \<Longrightarrow> allocated (DataPartition_new n num_leafs threads)"
  by (simp add: allocated_def DataPartition_new_def)

lemma SetUsedDataIndices_allocated:
  assumes "allocated dp" "num_used_data \<le> length used" "num_used_data \<le> dp_num_data dp"
    and "distinct (take num_used_data used)"
  shows "allocated (SetUsedDataIndices used num_used_data dp)"
  using assms by (simp add: allocated_def SetUsedDataIndices_def)

text \<open>
  C3. \<open>Init\<close> returns and puts the \<open>N\<close> initial rows on leaf 0. After every prefix of a
  sequence of splits whose right leaves are empty when they are used, the calls have
  returned, the leaf counts sum to \<open>N\<close>, \<open>indices\<close> is a permutation of the initial rows,
  every position lies in the range of exactly one leaf and every row is among the rows of
  exactly one leaf; and the next split of the sequence returns, the left child keeps the
  begin of the parent, the right child begins at that begin plus the left count, and the
  rows of the two children are the rows of the parent.
\<close>

theorem DataPartition_splits:
  assumes alloc: "allocated dp0"
    and calls: "calls_ok calls (DataPartition_Init dp0)"
    and bins: "\<forall>c \<in> set calls. Bin_Split_ok (fst (snd c))"
    and k: "k \<le> length calls"
  shows "\<exists>dp dp'. DataPartition_Init dp0 = Inr dp
           \<and> leaf_count dp = (replicate (dp_num_leaves dp0) 0)[0 := length (initial_rows dp0)]
           \<and> GetIndexOnLeaf dp 0 = initial_rows dp0
           \<and> Splits (take k calls) dp = Inr dp'
           \<and> partition_ok (length (initial_rows dp0)) (initial_rows dp0) dp'
           \<and> dp_num_leaves dp' = dp_num_leaves dp0
           \<and> (\<forall>r \<in> set (initial_rows dp0).
                 \<exists>!i. i < dp_num_leaves dp0 \<and> r \<in> set (GetIndexOnLeaf dp' i))
           \<and> (k < length calls \<longrightarrow>
                (case calls ! k of (leaf, feature_bins, threshold, right_leaf) \<Rightarrow>
                   \<exists>dp''. DataPartition_Split leaf feature_bins threshold right_leaf dp' = Inr dp''
                          \<and> split_children dp' leaf right_leaf dp''))"
proof -
  let ?N = "length (initial_rows dp0)"
  let ?rows = "initial_rows dp0"
  from Init_ok[OF alloc] obtain dp where
    i: "DataPartition_Init dp0 = Inr dp" and ok: "partition_ok ?N ?rows dp"
    and L: "dp_num_leaves dp = dp_num_leaves dp0"
    and lc: "leaf_count dp = (replicate (dp_num_leaves dp0) 0)[0 := ?N]"
    and g: "GetIndexOnLeaf dp 0 = ?rows"
    by blast
  from calls i have "calls_ok calls (Inr dp)" by simp
  from Splits_prefix[OF ok this bins k] obtain dp' where
    s: "Splits (take k calls) dp = Inr dp'" and ok': "partition_ok ?N ?rows dp'"
    and L': "dp_num_leaves dp' = dp_num_leaves dp"
    and ch: "k < length calls \<longrightarrow>
                (case calls ! k of (leaf, feature_bins, threshold, right_leaf) \<Rightarrow>
                   \<exists>dp''. DataPartition_Split leaf feature_bins threshold right_leaf dp' = Inr dp''
                          \<and> split_children dp' leaf right_leaf dp'')"
    by (elim exE conjE) (rule that)
  have one: "\<forall>r \<in> set ?rows. \<exists>!i. i < dp_num_leaves dp0 \<and> r \<in> set (GetIndexOnLeaf dp' i)"
  proof
    fix r assume "r \<in> set ?rows"
    from rows_in_one_leaf[OF ok' distinct_initial_rows[OF alloc] this] L' L
    show "\<exists>!i. i < dp_num_leaves dp0 \<and> r \<in> set (GetIndexOnLeaf dp' i)" by simp
  qed
  from i lc g s ok' L' L one ch show ?thesis by (intro exI[of _ dp] exI[of _ dp']) simp
qed

theorem DataPartition_splits_witness:
  "allocated \<lparr>dp_num_data = 5, dp_num_leaves = 3, leaf_begin = [0, 0, 0],
       leaf_count = [0, 0, 0], indices = [0, 0, 0, 0, 0], used_data_indices = None,
       used_data_count = 0, num_threads = 2\<rparr>
   \<and> calls_ok [(0, Bin_Split (\<lambda>r. r mod 3), 0, 1), (1, Bin_Split (\<lambda>r. r mod 3), 1, 2)]
       (DataPartition_Init \<lparr>dp_num_data = 5, dp_num_leaves = 3, leaf_begin = [0, 0, 0],
          leaf_count = [0, 0, 0], indices = [0, 0, 0, 0, 0], used_data_indices = None,
          used_data_count = 0, num_threads = 2\<rparr>)
   \<and> DataPartition_Init \<lparr>dp_num_data = 5, dp_num_leaves = 3, leaf_begin = [0, 0, 0],
          leaf_count = [0, 0, 0], indices = [0, 0, 0, 0, 0], used_data_indices = None,
          used_data_count = 0, num_threads = 2\<rparr>
       = Inr \<lparr>dp_num_data = 5, dp_num_leaves = 3, leaf_begin = [0, 0, 0],
          leaf_count = [5, 0, 0], indices = [0, 1, 2, 3, 4], used_data_indices = None,
          used_data_count = 0, num_threads = 2\<rparr>
   \<and> Splits [(0, Bin_Split (\<lambda>r. r mod 3), 0, 1), (1, Bin_Split (\<lambda>r. r mod 3), 1, 2)]
         \<lparr>dp_num_data = 5, dp_num_leaves = 3, leaf_begin = [0, 0, 0],
          leaf_count = [5, 0, 0], indices = [0, 1, 2, 3, 4], used_data_indices = None,
          used_data_count = 0, num_threads = 2\<rparr>
       = Inr \<lparr>dp_num_data = 5, dp_num_leaves = 3, leaf_begin = [0, 2, 4],
          leaf_count = [2, 2, 1], indices = [0, 3, 1, 4, 2], used_data_indices = None,
          used_data_count = 0, num_threads = 2\<rparr>
   \<and> (\<exists>dp dp'.
         DataPartition_Init \<lparr>dp_num_data = 5, dp_num_leaves = 3, leaf_begin = [0, 0, 0],
           leaf_count = [0, 0, 0], indices = [0, 0, 0, 0, 0], used_data_indices = None,
           used_data_count = 0, num_threads = 2\<rparr> = Inr dp
         \<and> leaf_count dp = [5, 0, 0]
         \<and> GetIndexOnLeaf dp 0 = [0, 1, 2, 3, 4]
         \<and> Splits [(0, Bin_Split (\<lambda>r. r mod 3), 0, 1)] dp = Inr dp'
         \<and> partition_ok 5 [0, 1, 2, 3, 4] dp'
         \<and> (\<forall>r \<in> set [0, 1, 2, 3, 4]. \<exists>!i. i < 3 \<and> r \<in> set (GetIndexOnLeaf dp' i))
         \<and> (\<exists>dp''. DataPartition_Split 1 (Bin_Split (\<lambda>r. r mod 3)) 1 2 dp' = Inr dp''
                    \<and> split_children dp' 1 2 dp''))"
proof -
  let ?dp0 = "\<lparr>dp_num_data = 5, dp_num_leaves = 3, leaf_begin = [0, 0, 0],
       leaf_count = [0, 0, 0], indices = [0, 0, 0, 0, 0], used_data_indices = None,
       used_data_count = 0, num_threads = 2\<rparr>"
  let ?dp1 = "\<lparr>dp_num_data = 5, dp_num_leaves = 3, leaf_begin = [0, 0, 0],
       leaf_count = [5, 0, 0], indices = [0, 1, 2, 3, 4], used_data_indices = None,
       used_data_count = 0, num_threads = 2\<rparr>"
  let ?dp2 = "\<lparr>dp_num_data = 5, dp_num_leaves = 3, leaf_begin = [0, 2, 0],
       leaf_count = [2, 3, 0], indices = [0, 3, 1, 2, 4], used_data_indices = None,
       used_data_count = 0, num_threads = 2\<rparr>"
  let ?dp3 = "\<lparr>dp_num_data = 5, dp_num_leaves = 3, leaf_begin = [0, 2, 4],
       leaf_count = [2, 2, 1], indices = [0, 3, 1, 4, 2], used_data_indices = None,
       used_data_count = 0, num_threads = 2\<rparr>"
  let ?fb = "Bin_Split (\<lambda>r. r mod 3)"
  let ?calls = "[(0, ?fb, 0, 1), (1, ?fb, 1, 2)]"
  have a: "allocated ?dp0" by (simp add: allocated_def)
  have i: "DataPartition_Init ?dp0 = Inr ?dp1"
    by (simp add: DataPartition_Init_def upt_rec numeral_3_eq_3)
  have s1: "DataPartition_Split 0 ?fb 0 1 ?dp1 = Inr ?dp2"
    by (simp add: DataPartition_Split_def thread_split_def thread_rows_def Bin_Split_def
          memcpy_at_def upt_rec Let_def)
  have s2: "DataPartition_Split 1 ?fb 1 2 ?dp2 = Inr ?dp3"
    by (simp add: DataPartition_Split_def thread_split_def thread_rows_def Bin_Split_def
          memcpy_at_def upt_rec Let_def)
  have c: "calls_ok ?calls (DataPartition_Init ?dp0)"
    by (simp only: i calls_ok.simps s1 s2) simp
  have run: "Splits ?calls ?dp1 = Inr ?dp3" by (simp only: Splits.simps s1 s2 sum.case)
  have b: "\<forall>c \<in> set ?calls. Bin_Split_ok (fst (snd c))" by (simp add: Bin_Split_ok_Bin_Split)
  have k: "1 \<le> length ?calls" by simp
  have ir: "initial_rows ?dp0 = [0, 1, 2, 3, 4]" by (simp add: initial_rows_def upt_rec)
  have len: "length ?calls = 2" by simp
  have t1: "take 1 ?calls = [(0, ?fb, 0, 1)]" by simp
  have n1: "?calls ! 1 = (1, ?fb, 1, 2)" by simp
  have L: "dp_num_leaves ?dp0 = 3" by simp
  have rep: "(replicate 3 0)[0 := length [0, 1, 2, 3, 4::nat]] = [5, 0, 0::nat]"
    by (simp add: numeral_3_eq_3)
  have lt: "(1::nat) < 2" by simp
  from DataPartition_splits[OF a c b k, unfolded ir len t1 n1 L rep]
  obtain dp dp' where
    h1: "DataPartition_Init ?dp0 = Inr dp"
    and h2: "leaf_count dp = [5, 0, 0]"
    and h3: "GetIndexOnLeaf dp 0 = [0, 1, 2, 3, 4]"
    and h4: "Splits [(0, ?fb, 0, 1)] dp = Inr dp'"
    and h5: "partition_ok (length [0, 1, 2, 3, 4::nat]) [0, 1, 2, 3, 4] dp'"
    and h6: "\<forall>r \<in> set [0, 1, 2, 3, 4]. \<exists>!i. i < 3 \<and> r \<in> set (GetIndexOnLeaf dp' i)"
    and h7: "(1::nat) < 2 \<longrightarrow> (case (1, ?fb, 1, 2) of (leaf, feature_bins, threshold, right_leaf) \<Rightarrow>
                   \<exists>dp''. DataPartition_Split leaf feature_bins threshold right_leaf dp' = Inr dp''
                          \<and> split_children dp' leaf right_leaf dp'')"
    by (elim exE conjE) (rule that)
  have l5: "length [0, 1, 2, 3, 4::nat] = 5" by simp
  note h5' = h5[unfolded l5]
  from h7 lt have h7': "\<exists>dp''. DataPartition_Split 1 ?fb 1 2 dp' = Inr dp''
                          \<and> split_children dp' 1 2 dp''"
    by (simp only: case_prod_conv simp_thms)
  have "\<exists>dp dp'. DataPartition_Init ?dp0 = Inr dp
         \<and> leaf_count dp = [5, 0, 0]
         \<and> GetIndexOnLeaf dp 0 = [0, 1, 2, 3, 4]
         \<and> Splits [(0, ?fb, 0, 1)] dp = Inr dp'
         \<and> partition_ok 5 [0, 1, 2, 3, 4] dp'
         \<and> (\<forall>r \<in> set [0, 1, 2, 3, 4]. \<exists>!i. i < 3 \<and> r \<in> set (GetIndexOnLeaf dp' i))
         \<and> (\<exists>dp''. DataPartition_Split 1 ?fb 1 2 dp' = Inr dp''
                    \<and> split_children dp' 1 2 dp'')"
    by (rule exI[of _ dp], rule exI[of _ dp']) (intro conjI h1 h2 h3 h4 h5' h6 h7')
  with a c i run show ?thesis by (intro conjI)
qed

end
